theory Spec2Isabelle
  imports Complex_Main "HOL-Library.Multiset"
begin

section \<open>Data model\<close>

text \<open>
  The program is the C++ random-forest classifier of the repository: \<open>DecisionTree.h\<close>, two
  versions of \<open>RandomForest.h\<close> and \<open>K-foldCrossValidation.h\<close>.

  A \<open>double\<close> that holds a feature value, a threshold or a Gini index is a \<open>real\<close>: the
  model computes exactly and has no NaN among the inputs. A \<open>vector<double>\<close> is a list,
  the feature matrix a list of rows. \<open>size_t\<close> positions are natural numbers, \<open>int\<close>
  values are integers. An access outside a vector, a null child pointer and a division of
  integers by zero are undefined behaviour in C++; the model returns them as errors.
\<close>

type_synonym row = "real list"

datatype error =
    RowIndexOutOfRange
  | FeatureIndexOutOfRange
  | LabelIndexOutOfRange
  | VoteIndexOutOfRange
  | NullChild
  | EmptyRow
  | EmptyData
  | DivisionByZero
  | TreeIndexOutOfRange
  | LengthError

section \<open>DecisionTree.h: partition_data\<close>

text \<open>
  \<open>features[i][feature_index]\<close>: \<open>feature_index\<close> is an \<open>int\<close> converted to \<open>size_t\<close>, so a
  negative index is a huge one and out of range as well.
\<close>

definition feature_at :: "row list \<Rightarrow> nat \<Rightarrow> int \<Rightarrow> error + real" where
  "feature_at features i feature_index =
     (if length features \<le> i then Inl RowIndexOutOfRange
      else if feature_index < 0 \<or> int (length (features ! i)) \<le> feature_index
        then Inl FeatureIndexOutOfRange
      else Inr (features ! i ! nat feature_index))"

text \<open>\<open>swap (features[mid], features[i])\<close>\<close>

definition swap_rows :: "row list \<Rightarrow> nat \<Rightarrow> nat \<Rightarrow> row list" where
  "swap_rows features mid i = features[mid := features ! i, i := features ! mid]"

text \<open>
  The \<open>for\<close> loop of \<open>partition_data\<close>, from position \<open>i\<close> on, with the current \<open>mid\<close>.
\<close>

function partition_loop ::
  "row list \<Rightarrow> nat \<Rightarrow> nat \<Rightarrow> int \<Rightarrow> real \<Rightarrow> nat \<Rightarrow> error + (row list \<times> nat)" where
  "partition_loop features i end feature_index threshold mid =
     (if i < end then
        (case feature_at features i feature_index of
           Inl e \<Rightarrow> Inl e
         | Inr v \<Rightarrow>
             if v < threshold
             then partition_loop (swap_rows features mid i) (i + 1) end feature_index threshold
                    (mid + 1)
             else partition_loop features (i + 1) end feature_index threshold mid)
      else Inr (features, mid))"
  by pat_completeness auto
termination
  by (relation "measure (\<lambda>(features, i, end, feature_index, threshold, mid). end - i)") auto

declare partition_loop.simps [simp del]

text \<open>
  \<open>start + (end - start) / 2\<close> in \<open>size_t\<close> arithmetic (64 bits): the subtraction wraps when
  \<open>end < start\<close>.
\<close>

definition midpoint :: "nat \<Rightarrow> nat \<Rightarrow> nat" where
  "midpoint start end =
     (if start \<le> end then start + (end - start) div 2
      else (start + (2 ^ 64 - (start - end)) div 2) mod 2 ^ 64)"

definition partition_data ::
  "row list \<Rightarrow> nat \<Rightarrow> nat \<Rightarrow> int \<Rightarrow> real \<Rightarrow> error + (row list \<times> nat)" where
  "partition_data features start end feature_index threshold =
     (case partition_loop features start end feature_index threshold start of
        Inl e \<Rightarrow> Inl e
      | Inr (features', mid) \<Rightarrow>
          if mid = start \<or> mid = end then Inr (features', midpoint start end)
          else Inr (features', mid))"

text \<open>The rows of the range \<open>[start, end)\<close>.\<close>

definition rows_in :: "row list \<Rightarrow> nat \<Rightarrow> nat \<Rightarrow> row list" where
  "rows_in features start end = take (end - start) (drop start features)"

text \<open>
  The postcondition of a two-way partition at \<open>mid\<close>: the rows of \<open>[start, mid)\<close> are below
  the threshold in the feature, the rows of \<open>[mid, end)\<close> are not.
\<close>

definition below :: "int \<Rightarrow> real \<Rightarrow> row \<Rightarrow> bool" where
  "below feature_index threshold r = (r ! nat feature_index < threshold)"

definition split_at :: "row list \<Rightarrow> nat \<Rightarrow> nat \<Rightarrow> nat \<Rightarrow> int \<Rightarrow> real \<Rightarrow> bool" where
  "split_at features start mid end feature_index threshold =
     (list_all (below feature_index threshold) (rows_in features start mid) \<and>
      list_all (\<lambda>r. \<not> below feature_index threshold r) (rows_in features mid end))"


text \<open>The number of rows of \<open>[start, end)\<close> that are below the threshold.\<close>

definition below_count :: "row list \<Rightarrow> nat \<Rightarrow> nat \<Rightarrow> int \<Rightarrow> real \<Rightarrow> nat" where
  "below_count features start end feature_index threshold =
     length (filter (below feature_index threshold) (rows_in features start end))"

section \<open>DecisionTree.h: leaves and labels\<close>

text \<open>
  A \<open>std::map\<close> with integer counts is its list of entries in ascending key order, the order
  in which the code traverses it. \<open>m[k] += d\<close> creates a missing entry with count \<open>0\<close> first.
\<close>

fun count_add :: "'k::linorder \<Rightarrow> int \<Rightarrow> ('k \<times> int) list \<Rightarrow> ('k \<times> int) list" where
  "count_add k d [] = [(k, d)]"
| "count_add k d ((k', c) # m) =
     (if k < k' then (k, d) # (k', c) # m
      else if k = k' then (k', c + d) # m
      else (k', c) # count_add k d m)"

definition label_at :: "int list \<Rightarrow> nat \<Rightarrow> error + int" where
  "label_at labels i =
     (if i < length labels then Inr (labels ! i) else Inl LabelIndexOutOfRange)"

function should_be_leaf_loop :: "int list \<Rightarrow> nat \<Rightarrow> nat \<Rightarrow> int \<Rightarrow> error + bool" where
  "should_be_leaf_loop labels i end first_label =
     (if i < end then
        (case label_at labels i of
           Inl e \<Rightarrow> Inl e
         | Inr l \<Rightarrow>
             if l \<noteq> first_label then Inr False
             else should_be_leaf_loop labels (i + 1) end first_label)
      else Inr True)"
  by pat_completeness auto
termination
  by (relation "measure (\<lambda>(labels, i, end, first_label). end - i)") auto

declare should_be_leaf_loop.simps [simp del]

definition should_be_leaf :: "int list \<Rightarrow> nat \<Rightarrow> nat \<Rightarrow> error + bool" where
  "should_be_leaf labels start end =
     (case label_at labels start of
        Inl e \<Rightarrow> Inl e
      | Inr first_label \<Rightarrow> should_be_leaf_loop labels (start + 1) end first_label)"

function label_counts_loop ::
  "int list \<Rightarrow> nat \<Rightarrow> nat \<Rightarrow> (int \<times> int) list \<Rightarrow> error + (int \<times> int) list" where
  "label_counts_loop labels i end label_counts =
     (if i < end then
        (case label_at labels i of
           Inl e \<Rightarrow> Inl e
         | Inr l \<Rightarrow> label_counts_loop labels (i + 1) end (count_add l 1 label_counts))
      else Inr label_counts)"
  by pat_completeness auto
termination
  by (relation "measure (\<lambda>(labels, i, end, label_counts). end - i)") auto

declare label_counts_loop.simps [simp del]

text \<open>
  The traversal that keeps the first entry with the strictly greatest count; it is the
  second loop of \<open>determine_label\<close> and of the map-based \<open>RandomForest::predict\<close>. The
  result is the pair of \<open>majority_label\<close> and \<open>max_count\<close>.
\<close>

fun majority_scan :: "(int \<times> int) list \<Rightarrow> int \<Rightarrow> int \<Rightarrow> int \<times> int" where
  "majority_scan [] majority_label max_count = (majority_label, max_count)"
| "majority_scan ((l, c) # m) majority_label max_count =
     (if c > max_count then majority_scan m l c
      else majority_scan m majority_label max_count)"

definition determine_label :: "int list \<Rightarrow> nat \<Rightarrow> nat \<Rightarrow> error + int" where
  "determine_label labels start end =
     (case label_counts_loop labels start end [] of
        Inl e \<Rightarrow> Inl e
      | Inr label_counts \<Rightarrow> Inr (fst (majority_scan label_counts (- 1) 0)))"

section \<open>DecisionTree.h: find_best_split\<close>

record SplitResult =
  gini :: real
  threshold :: real

text \<open>\<open>numeric_limits<double>::max()\<close>\<close>

definition DBL_MAX :: real where
  "DBL_MAX = (2 ^ 53 - 1) * 2 ^ 971"

fun gini_side :: "(real \<times> int) list \<Rightarrow> int \<Rightarrow> real \<Rightarrow> real" where
  "gini_side [] sz g = g"
| "gini_side ((k, c) # m) sz g =
     gini_side m sz (g - (real_of_int c / real_of_int sz) * (real_of_int c / real_of_int sz))"

text \<open>
  \<open>find_best_split\<close> calls \<open>calculate_gini_index\<close> with sizes that are not zero. The
  quotients, squares and sums are the exact ones, where the code rounds each of them to a
  \<open>double\<close>: two splits whose Gini values are equal here can differ in the last bit there,
  and \<open>(a + b) / 2\<close> does not overflow here. Which split wins such a tie is therefore
  outside what the model says about the code.
\<close>

definition calculate_gini_index ::
  "(real \<times> int) list \<Rightarrow> (real \<times> int) list \<Rightarrow> int \<Rightarrow> int \<Rightarrow> real" where
  "calculate_gini_index left_counts right_counts left_size right_size =
     (let left_gini = gini_side left_counts left_size 1;
          right_gini = gini_side right_counts right_size 1
      in (left_gini * real_of_int left_size + right_gini * real_of_int right_size)
           / real_of_int (left_size + right_size))"

function right_counts_loop ::
  "int list \<Rightarrow> nat \<Rightarrow> nat \<Rightarrow> (real \<times> int) list \<Rightarrow> error + (real \<times> int) list" where
  "right_counts_loop labels i end right_counts =
     (if i < end then
        (case label_at labels i of
           Inl e \<Rightarrow> Inl e
         | Inr l \<Rightarrow> right_counts_loop labels (i + 1) end (count_add (real_of_int l) 1 right_counts))
      else Inr right_counts)"
  by pat_completeness auto
termination
  by (relation "measure (\<lambda>(labels, i, end, right_counts). end - i)") auto

declare right_counts_loop.simps [simp del]

text \<open>
  The state of the sweep: the two count maps, the two sizes and the best split so far.
  The loop bound is \<open>end - 1\<close> in \<open>size_t\<close>, which is \<open>2^64 - 1\<close> for \<open>end = 0\<close>.
\<close>

record sweep =
  left_counts :: "(real \<times> int) list"
  right_counts :: "(real \<times> int) list"
  left_size :: int
  right_size :: int
  split_gini :: real
  split_threshold :: real

definition size_t_pred :: "nat \<Rightarrow> nat" where
  "size_t_pred end = (if end = 0 then 2 ^ 64 - 1 else end - 1)"

function find_best_split_loop ::
  "row list \<Rightarrow> int list \<Rightarrow> nat \<Rightarrow> nat \<Rightarrow> int \<Rightarrow> sweep \<Rightarrow> error + sweep" where
  "find_best_split_loop features labels i bound feature_index s =
     (if i < bound then
        (case label_at labels i of
           Inl e \<Rightarrow> Inl e
         | Inr l \<Rightarrow>
            (let s1 = s\<lparr>left_counts := count_add (real_of_int l) 1 (left_counts s),
                       right_counts := count_add (real_of_int l) (- 1) (right_counts s),
                       left_size := left_size s + 1,
                       right_size := right_size s - 1\<rparr>
             in case feature_at features i feature_index of
                  Inl e \<Rightarrow> Inl e
                | Inr a \<Rightarrow>
                   (case feature_at features (i + 1) feature_index of
                      Inl e \<Rightarrow> Inl e
                    | Inr b \<Rightarrow>
                        if a \<noteq> b then
                          (let thr = (a + b) / 2;
                               g = calculate_gini_index (left_counts s1) (right_counts s1)
                                     (left_size s1) (right_size s1)
                           in if g < split_gini s1
                              then find_best_split_loop features labels (i + 1) bound feature_index
                                     (s1\<lparr>split_gini := g, split_threshold := thr\<rparr>)
                              else find_best_split_loop features labels (i + 1) bound feature_index
                                     s1)
                        else find_best_split_loop features labels (i + 1) bound feature_index s1)))
      else Inr s)"
  by pat_completeness auto
termination
  by (relation "measure (\<lambda>(features, labels, i, bound, feature_index, s). bound - i)") auto

declare find_best_split_loop.simps [simp del]

definition find_best_split ::
  "row list \<Rightarrow> int list \<Rightarrow> nat \<Rightarrow> nat \<Rightarrow> int \<Rightarrow> error + SplitResult" where
  "find_best_split features labels start end feature_index =
     (case right_counts_loop labels start end [] of
        Inl e \<Rightarrow> Inl e
      | Inr rc \<Rightarrow>
         (case find_best_split_loop features labels start (size_t_pred end) feature_index
                 \<lparr>left_counts = [], right_counts = rc, left_size = 0,
                  right_size = int end - int start, split_gini = DBL_MAX, split_threshold = 0\<rparr> of
            Inl e \<Rightarrow> Inl e
          | Inr s \<Rightarrow> Inr \<lparr>gini = split_gini s, threshold = split_threshold s\<rparr>))"


section \<open>DecisionTree.h: build_tree, train, predict\<close>

text \<open>
  \<open>Node.h\<close> is not among the sources. A node has the fields that \<open>DecisionTree.h\<close> reads and
  writes; \<open>left\<close> and \<open>right\<close> are owning pointers, \<open>None\<close> when null. What the
  constructor \<open>Node()\<close> stores is not known, so the functions below take the freshly
  constructed node as the parameter \<open>new_Node\<close>.
\<close>

datatype node =
  Node (is_leaf: bool) (label: int) (feature_index: int) (node_threshold: real)
       (gini_index: real) (left: "node option") (right: "node option")

text \<open>
  The search over \<open>sampled_features\<close>. An \<open>unordered_set<int>\<close> is traversed in an order that
  the implementation chooses: the set is given as the list of its elements in that order.
  The state is \<open>(best_feature, best_threshold, best_gini)\<close>.
\<close>

fun best_split_loop ::
  "row list \<Rightarrow> int list \<Rightarrow> nat \<Rightarrow> nat \<Rightarrow> int list \<Rightarrow> int \<times> real \<times> real \<Rightarrow>
   error + (int \<times> real \<times> real)" where
  "best_split_loop features labels start end [] best = Inr best"
| "best_split_loop features labels start end (fi # rest) (best_feature, best_threshold, best_gini) =
     (case find_best_split features labels start end fi of
        Inl e \<Rightarrow> Inl e
      | Inr result \<Rightarrow>
          if gini result < best_gini
          then best_split_loop features labels start end rest (fi, threshold result, gini result)
          else best_split_loop features labels start end rest
                 (best_feature, best_threshold, best_gini))"

text \<open>
  \<open>build_tree\<close> returns the node it was given, updated, and the feature matrix, which
  \<open>partition_data\<close> reorders in place. \<open>best_threshold\<close> is declared without an initial
  value: \<open>indeterminate\<close> is the value it holds until the search assigns one.
\<close>

function build_tree ::
  "node \<Rightarrow> real \<Rightarrow> node \<Rightarrow> row list \<Rightarrow> int list \<Rightarrow> nat \<Rightarrow> nat \<Rightarrow> int list \<Rightarrow>
   error + (node \<times> row list)" where
  "build_tree new_Node indeterminate node features labels start end sampled_features =
     (if start \<ge> end then Inr (node, features)
      else
        (case should_be_leaf labels start end of
           Inl e \<Rightarrow> Inl e
         | Inr True \<Rightarrow>
            (case determine_label labels start end of
               Inl e \<Rightarrow> Inl e
             | Inr l \<Rightarrow>
                 Inr (Node True l (feature_index node) (node_threshold node) (gini_index node)
                        (left node) (right node), features))
         | Inr False \<Rightarrow>
            (case best_split_loop features labels start end sampled_features
                    (- 1, indeterminate, DBL_MAX) of
               Inl e \<Rightarrow> Inl e
             | Inr (best_feature, best_threshold, best_gini) \<Rightarrow>
                (case partition_data features start end best_feature best_threshold of
                   Inl e \<Rightarrow> Inl e
                 | Inr (features1, split_index) \<Rightarrow>
                    (case build_tree new_Node indeterminate new_Node features1 labels
                            start split_index sampled_features of
                       Inl e \<Rightarrow> Inl e
                     | Inr (l, features2) \<Rightarrow>
                        (case build_tree new_Node indeterminate new_Node features2 labels
                                split_index end sampled_features of
                           Inl e \<Rightarrow> Inl e
                         | Inr (r, features3) \<Rightarrow>
                             Inr (Node (is_leaf node) (label node) best_feature best_threshold
                                    best_gini (Some l) (Some r), features3)))))))"
  by pat_completeness auto

text \<open>
  \<open>static_cast<int>\<close> of a \<open>double\<close> drops the fraction. The model gives the truncated value
  for every real; for a \<open>double\<close> outside the range of \<open>int\<close> the conversion is undefined in
  C++, and such labels are outside what the model says about the code.
\<close>

definition static_cast_int :: "real \<Rightarrow> int" where
  "static_cast_int x = (if 0 \<le> x then \<lfloor>x\<rfloor> else \<lceil>x\<rceil>)"

text \<open>
  \<open>DecisionTree::train\<close> on the tree with root \<open>root_node\<close>. \<open>iteration_order\<close> gives the order in
  which the set built by inserting \<open>0, 1, ...\<close> is traversed. With an empty first row and no
  sampled features the source counts up to \<open>size_t(0) - 1\<close> and then takes
  \<open>data_vec[i].end() - 1\<close> of an empty row; the model reports the empty row.
\<close>

definition train ::
  "node \<Rightarrow> real \<Rightarrow> (int list \<Rightarrow> int list) \<Rightarrow> node \<Rightarrow> row list \<Rightarrow> int list \<Rightarrow> error + node" where
  "train new_Node indeterminate iteration_order root_node data_vec sampled_features =
     (case (if sampled_features = [] then
              (case data_vec of
                 [] \<Rightarrow> Inl EmptyData
               | r0 # _ \<Rightarrow>
                   if r0 = [] then Inl EmptyRow
                   else Inr (iteration_order (map int [0..<length r0 - 1])))
            else Inr sampled_features) of
        Inl e \<Rightarrow> Inl e
      | Inr modifiable_sample_features \<Rightarrow>
          if list_ex (\<lambda>r. r = []) data_vec then Inl EmptyRow
          else
            (case build_tree new_Node indeterminate root_node
                    (map butlast data_vec) (map (\<lambda>r. static_cast_int (last r)) data_vec)
                    0 (length data_vec) modifiable_sample_features of
               Inl e \<Rightarrow> Inl e
             | Inr (root_node', features') \<Rightarrow> Inr root_node'))"

text \<open>\<open>DecisionTree::predict\<close>, from the node \<open>node\<close> down.\<close>

fun predict :: "node \<Rightarrow> row \<Rightarrow> error + int" where
  "predict (Node leaf lab fi th g l r) feature =
     (if leaf then Inr lab
      else if fi < 0 \<or> int (length feature) \<le> fi then Inl FeatureIndexOutOfRange
      else if feature ! nat fi < th
        then (case l of None \<Rightarrow> Inl NullChild | Some n \<Rightarrow> predict n feature)
        else (case r of None \<Rightarrow> Inl NullChild | Some n \<Rightarrow> predict n feature))"


section \<open>RandomForest.h: predict, in its two versions\<close>

text \<open>
  A forest holds the members \<open>num_trees_\<close> and \<open>trees_\<close>, here \<open>rf_num_trees\<close> and \<open>rf_trees\<close>;
  each tree is its root node, which is never null. The constructor makes \<open>trees_\<close> of
  length \<open>num_trees_\<close>.
\<close>

record RandomForest =
  rf_num_trees :: int
  rf_trees :: "node list"

text \<open>The version with \<open>kFoldCrossValidation\<close>: votes are tallied in a \<open>map<int, int>\<close>.\<close>

fun vote_count_loop :: "node list \<Rightarrow> row \<Rightarrow> (int \<times> int) list \<Rightarrow> error + (int \<times> int) list" where
  "vote_count_loop [] feature vote_count = Inr vote_count"
| "vote_count_loop (tree # rest) feature vote_count =
     (case predict tree feature of
        Inl e \<Rightarrow> Inl e
      | Inr prediction \<Rightarrow> vote_count_loop rest feature (count_add prediction 1 vote_count))"

definition RandomForest_predict :: "RandomForest \<Rightarrow> row \<Rightarrow> error + int" where
  "RandomForest_predict rf feature =
     (case vote_count_loop (rf_trees rf) feature [] of
        Inl e \<Rightarrow> Inl e
      | Inr vote_count \<Rightarrow> Inr (fst (majority_scan vote_count (- 1) 0)))"

text \<open>
  The alternate version: votes are tallied in a \<open>vector<int>\<close> of length \<open>num_trees_\<close>,
  indexed by the predicted label, and \<open>max_element\<close> finds the first greatest entry.
\<close>

fun votes_loop :: "node list \<Rightarrow> row \<Rightarrow> int list \<Rightarrow> error + int list" where
  "votes_loop [] feature votes = Inr votes"
| "votes_loop (tree # rest) feature votes =
     (case predict tree feature of
        Inl e \<Rightarrow> Inl e
      | Inr prediction \<Rightarrow>
          if prediction < 0 \<or> int (length votes) \<le> prediction then Inl VoteIndexOutOfRange
          else votes_loop rest feature (votes[nat prediction := votes ! nat prediction + 1]))"

text \<open>
  \<open>std::max_element\<close>: the position of the first greatest element, the end position \<open>0\<close> for
  an empty vector. The loop carries the position \<open>i\<close> it looks at and the largest so far.
\<close>

fun max_element_loop :: "int list \<Rightarrow> nat \<Rightarrow> nat \<Rightarrow> int \<Rightarrow> nat" where
  "max_element_loop [] i largest largest_value = largest"
| "max_element_loop (x # xs) i largest largest_value =
     (if largest_value < x then max_element_loop xs (i + 1) i x
      else max_element_loop xs (i + 1) largest largest_value)"

definition max_element :: "int list \<Rightarrow> nat" where
  "max_element votes = (case votes of [] \<Rightarrow> 0 | x # xs \<Rightarrow> max_element_loop xs 1 0 x)"

definition RandomForest_predict_alt :: "RandomForest \<Rightarrow> row \<Rightarrow> error + int" where
  "RandomForest_predict_alt rf feature =
     (case votes_loop (rf_trees rf) feature (replicate (nat (rf_num_trees rf)) 0) of
        Inl e \<Rightarrow> Inl e
      | Inr votes \<Rightarrow> Inr (int (max_element votes)))"

section \<open>RandomForest.h: evaluate\<close>

text \<open>
  The value that \<open>evaluate\<close> and the cross-validation return is a quotient of \<open>double\<close>s whose
  divisor can be zero, so it is a real number, an infinity or NaN. Divisors are sizes, hence
  never negative zero.
\<close>

datatype double = Num real | PosInf | NegInf | NaN

fun fadd :: "double \<Rightarrow> double \<Rightarrow> double" where
  "fadd (Num a) (Num b) = Num (a + b)"
| "fadd NaN y = NaN"
| "fadd x NaN = NaN"
| "fadd PosInf NegInf = NaN"
| "fadd NegInf PosInf = NaN"
| "fadd PosInf y = PosInf"
| "fadd x PosInf = PosInf"
| "fadd NegInf y = NegInf"
| "fadd x NegInf = NegInf"

fun fdiv :: "double \<Rightarrow> double \<Rightarrow> double" where
  "fdiv (Num a) (Num b) =
     (if b \<noteq> 0 then Num (a / b) else if a = 0 then NaN else if 0 < a then PosInf else NegInf)"
| "fdiv NaN y = NaN"
| "fdiv x NaN = NaN"
| "fdiv (Num a) y = Num 0"
| "fdiv PosInf (Num b) = (if 0 \<le> b then PosInf else NegInf)"
| "fdiv NegInf (Num b) = (if 0 \<le> b then NegInf else PosInf)"
| "fdiv PosInf PosInf = NaN"
| "fdiv PosInf NegInf = NaN"
| "fdiv NegInf PosInf = NaN"
| "fdiv NegInf NegInf = NaN"

text \<open>
  The loop of \<open>evaluate\<close>, over the prediction function of the version at hand.
  \<open>data_point.end() - 1\<close> and \<open>data_point.back()\<close> need a row that is not empty.
\<close>

fun evaluate_loop :: "(row \<Rightarrow> error + int) \<Rightarrow> row list \<Rightarrow> int \<Rightarrow> error + int" where
  "evaluate_loop predict_fn [] correct_predictions = Inr correct_predictions"
| "evaluate_loop predict_fn (data_point # rest) correct_predictions =
     (if data_point = [] then Inl EmptyRow
      else
        (case predict_fn (butlast data_point) of
           Inl e \<Rightarrow> Inl e
         | Inr predicted \<Rightarrow>
             evaluate_loop predict_fn rest
               (if predicted = static_cast_int (last data_point) then correct_predictions + 1
                else correct_predictions)))"

definition evaluate :: "RandomForest \<Rightarrow> row list \<Rightarrow> error + double" where
  "evaluate rf test_data =
     (case evaluate_loop (RandomForest_predict rf) test_data 0 of
        Inl e \<Rightarrow> Inl e
      | Inr correct_predictions \<Rightarrow>
          Inr (fdiv (Num (real_of_int correct_predictions)) (Num (real (length test_data)))))"

definition evaluate_alt :: "RandomForest \<Rightarrow> row list \<Rightarrow> error + double" where
  "evaluate_alt rf test_data =
     (case evaluate_loop (RandomForest_predict_alt rf) test_data 0 of
        Inl e \<Rightarrow> Inl e
      | Inr correct_predictions \<Rightarrow>
          Inr (fdiv (Num (real_of_int correct_predictions)) (Num (real (length test_data)))))"

section \<open>RandomForest.h: construction and train\<close>

text \<open>
  The constructor builds \<open>trees_\<close> as a vector of \<open>num_trees\<close> trees, each with a new node as
  its root; a negative \<open>num_trees\<close> is a size that \<open>std::vector\<close> refuses with
  \<open>std::length_error\<close>.
\<close>

definition RandomForest_new :: "node \<Rightarrow> int \<Rightarrow> error + RandomForest" where
  "RandomForest_new new_Node num_trees =
     (if num_trees < 0 then Inl LengthError
      else Inr \<lparr>rf_num_trees = num_trees, rf_trees = replicate (nat num_trees) new_Node\<rparr>)"

text \<open>Division of \<open>int\<close>s rounds towards zero.\<close>

definition int_div :: "int \<Rightarrow> int \<Rightarrow> int" where
  "int_div a b = sgn a * sgn b * (\<bar>a\<bar> div \<bar>b\<bar>)"

text \<open>\<open>data[indices[j]]\<close>\<close>

definition data_at :: "row list \<Rightarrow> int list \<Rightarrow> int \<Rightarrow> error + row" where
  "data_at data indices j =
     (if j < 0 \<or> int (length indices) \<le> j then Inl RowIndexOutOfRange
      else if indices ! nat j < 0 \<or> int (length data) \<le> indices ! nat j
        then Inl RowIndexOutOfRange
      else Inr (data ! nat (indices ! nat j)))"

text \<open>
  \<open>splitData\<close> shuffles the indices (the parameter \<open>shuffle\<close> is the outcome of
  \<open>std::shuffle\<close>), and copies the rows at the first \<open>split_index\<close> shuffled indices to
  \<open>train_data\<close> and the others to \<open>test_data\<close>. \<open>copy_rows\<close> is either of its two loops.
  \<open>split_index\<close> is \<open>data.size() * (1 - test_size)\<close> without its fraction, computed here in
  exact arithmetic.
\<close>

function copy_rows :: "row list \<Rightarrow> int list \<Rightarrow> int \<Rightarrow> int \<Rightarrow> row list \<Rightarrow> error + row list" where
  "copy_rows data indices i bound out =
     (if i < bound then
        (case data_at data indices i of
           Inl e \<Rightarrow> Inl e
         | Inr r \<Rightarrow> copy_rows data indices (i + 1) bound (out @ [r]))
      else Inr out)"
  by pat_completeness auto
termination
  by (relation "measure (\<lambda>(data, indices, i, bound, out). nat (bound - i))") auto

declare copy_rows.simps [simp del]

definition splitData ::
  "(int list \<Rightarrow> int list) \<Rightarrow> row list \<Rightarrow> real \<Rightarrow> error + (row list \<times> row list)" where
  "splitData shuffle data test_size =
     (let indices = shuffle (map int [0..<length data]);
          split_index = static_cast_int (real (length data) * (1 - test_size))
      in case copy_rows data indices 0 split_index [] of
           Inl e \<Rightarrow> Inl e
         | Inr train_data \<Rightarrow>
            (case copy_rows data indices split_index (int (length data)) [] of
               Inl e \<Rightarrow> Inl e
             | Inr test_data \<Rightarrow> Inr (train_data, test_data)))"

text \<open>
  The sampling loop, \<open>createBootstrapSample\<close> in the version with \<open>kFoldCrossValidation\<close> and
  the inner loop of \<open>train\<close> in the alternate version: \<open>data.size()\<close> rows are drawn with
  replacement. \<open>draw j\<close> is the random number of the \<open>j\<close>-th draw; the index it gives lies in
  \<open>[0, data.size())\<close>, as \<open>dist(rng)\<close> and \<open>rand() % num_samples\<close> do. On an empty \<open>data\<close>
  nothing is drawn and the sample is empty; that \<open>dist\<close> is then constructed with the
  bounds \<open>0\<close> and \<open>-1\<close> has no effect in the model.
\<close>

function bootstrap_loop :: "(nat \<Rightarrow> nat) \<Rightarrow> row list \<Rightarrow> nat \<Rightarrow> row list \<Rightarrow> row list" where
  "bootstrap_loop draw data j samples =
     (if j < length data
      then bootstrap_loop draw data (j + 1) (samples @ [data ! (draw j mod length data)])
      else samples)"
  by pat_completeness auto
termination
  by (relation "measure (\<lambda>(draw, data, j, samples). length data - j)") auto

declare bootstrap_loop.simps [simp del]

definition createBootstrapSample :: "(nat \<Rightarrow> nat) \<Rightarrow> row list \<Rightarrow> row list" where
  "createBootstrapSample draw data = bootstrap_loop draw data 0 []"

text \<open>
  \<open>RandomForest::train\<close> of the version with \<open>kFoldCrossValidation\<close>: it holds out a fifth of
  the data with \<open>splitData\<close> and trains tree \<open>i\<close> on a bootstrap sample of the rest, with
  no sampled features. \<open>draws i\<close> are the random numbers drawn for tree \<open>i\<close>.
\<close>

function train_trees ::
  "node \<Rightarrow> real \<Rightarrow> (int list \<Rightarrow> int list) \<Rightarrow> (nat \<Rightarrow> nat \<Rightarrow> nat) \<Rightarrow> row list \<Rightarrow> int \<Rightarrow> int \<Rightarrow>
   node list \<Rightarrow> error + node list" where
  "train_trees new_Node indeterminate iteration_order draws train_data num_trees i trees =
     (if i < num_trees then
        (if i < 0 \<or> int (length trees) \<le> i then Inl TreeIndexOutOfRange
         else
           (case train new_Node indeterminate iteration_order (trees ! nat i)
                   (createBootstrapSample (draws (nat i)) train_data) [] of
              Inl e \<Rightarrow> Inl e
            | Inr tree \<Rightarrow>
                train_trees new_Node indeterminate iteration_order draws train_data num_trees
                  (i + 1) (trees[nat i := tree])))
      else Inr trees)"
  by pat_completeness auto
termination
  by (relation "measure (\<lambda>(new_Node, indeterminate, iteration_order, draws, train_data,
        num_trees, i, trees). nat (num_trees - i))") auto

declare train_trees.simps [simp del]

definition RandomForest_train ::
  "node \<Rightarrow> real \<Rightarrow> (int list \<Rightarrow> int list) \<Rightarrow> (int list \<Rightarrow> int list) \<Rightarrow> (nat \<Rightarrow> nat \<Rightarrow> nat) \<Rightarrow>
   RandomForest \<Rightarrow> row list \<Rightarrow> error + RandomForest" where
  "RandomForest_train new_Node indeterminate iteration_order shuffle draws rf data_vec =
     (case splitData shuffle data_vec (1 / 5) of
        Inl e \<Rightarrow> Inl e
      | Inr (train_data, test_data) \<Rightarrow>
         (case train_trees new_Node indeterminate iteration_order draws train_data
                 (rf_num_trees rf) 0 (rf_trees rf) of
            Inl e \<Rightarrow> Inl e
          | Inr trees \<Rightarrow> Inr (rf\<lparr>rf_trees := trees\<rparr>)))"

text \<open>
  \<open>RandomForest::train\<close> of the alternate version: every tree is trained on a bootstrap
  sample of the whole data. \<open>t\<close> counts the trees.
\<close>

fun train_trees_alt ::
  "node \<Rightarrow> real \<Rightarrow> (int list \<Rightarrow> int list) \<Rightarrow> (nat \<Rightarrow> nat \<Rightarrow> nat) \<Rightarrow> row list \<Rightarrow> nat \<Rightarrow>
   node list \<Rightarrow> error + node list" where
  "train_trees_alt new_Node indeterminate iteration_order draws data_vec t [] = Inr []"
| "train_trees_alt new_Node indeterminate iteration_order draws data_vec t (tree # rest) =
     (case train new_Node indeterminate iteration_order tree
             (createBootstrapSample (draws t) data_vec) [] of
        Inl e \<Rightarrow> Inl e
      | Inr tree' \<Rightarrow>
         (case train_trees_alt new_Node indeterminate iteration_order draws data_vec (t + 1)
                 rest of
            Inl e \<Rightarrow> Inl e
          | Inr rest' \<Rightarrow> Inr (tree' # rest')))"

definition RandomForest_train_alt ::
  "node \<Rightarrow> real \<Rightarrow> (int list \<Rightarrow> int list) \<Rightarrow> (nat \<Rightarrow> nat \<Rightarrow> nat) \<Rightarrow> RandomForest \<Rightarrow> row list \<Rightarrow>
   error + RandomForest" where
  "RandomForest_train_alt new_Node indeterminate iteration_order draws rf data_vec =
     (case train_trees_alt new_Node indeterminate iteration_order draws data_vec 0
             (rf_trees rf) of
        Inl e \<Rightarrow> Inl e
      | Inr trees \<Rightarrow> Inr (rf\<lparr>rf_trees := trees\<rparr>))"

text \<open>
  \<open>RandomForest model(num_trees); model.train(trainSet);\<close> in run \<open>i\<close> of a
  cross-validation, with either version of the forest. Every run draws anew:
  \<open>split_shuffle i\<close> and \<open>draws i\<close> are the shuffle and the random numbers of run \<open>i\<close>.
\<close>

definition model_train ::
  "node \<Rightarrow> real \<Rightarrow> (int list \<Rightarrow> int list) \<Rightarrow> (int \<Rightarrow> int list \<Rightarrow> int list) \<Rightarrow>
   (int \<Rightarrow> nat \<Rightarrow> nat \<Rightarrow> nat) \<Rightarrow> int \<Rightarrow> int \<Rightarrow> row list \<Rightarrow> error + RandomForest" where
  "model_train new_Node indeterminate iteration_order split_shuffle draws i num_trees trainSet =
     (case RandomForest_new new_Node num_trees of
        Inl e \<Rightarrow> Inl e
      | Inr model \<Rightarrow>
          RandomForest_train new_Node indeterminate iteration_order (split_shuffle i) (draws i)
            model trainSet)"

definition model_train_alt ::
  "node \<Rightarrow> real \<Rightarrow> (int list \<Rightarrow> int list) \<Rightarrow> (int \<Rightarrow> nat \<Rightarrow> nat \<Rightarrow> nat) \<Rightarrow> int \<Rightarrow> int \<Rightarrow> row list \<Rightarrow>
   error + RandomForest" where
  "model_train_alt new_Node indeterminate iteration_order draws i num_trees trainSet =
     (case RandomForest_new new_Node num_trees of
        Inl e \<Rightarrow> Inl e
      | Inr model \<Rightarrow>
          RandomForest_train_alt new_Node indeterminate iteration_order (draws i) model trainSet)"


section \<open>Cross-validation\<close>

text \<open>
  \<open>KFoldCrossValidation::perform\<close> and \<open>RandomForest::kFoldCrossValidation\<close> have the same
  body; the first takes \<open>num_trees\<close> as an argument, the second reads \<open>num_trees_\<close>. The
  shuffle of the indices is the parameter \<open>shuffle\<close>.

  \<open>fold_loop\<close> is the loop over the folds. Its argument \<open>train_fn\<close> is what
  \<open>RandomForest model(num_trees); model.train(trainSet);\<close> does in run \<open>i\<close>: \<open>model_train\<close> in
  \<open>kFoldCrossValidation\<close>. \<open>perform\<close> includes \<open>RandomForest.h\<close>, of which there are two
  versions, so it keeps \<open>train_fn\<close> as its argument, to be \<open>model_train\<close> or
  \<open>model_train_alt\<close>.
\<close>

function split_loop ::
  "row list \<Rightarrow> int list \<Rightarrow> int \<Rightarrow> int \<Rightarrow> int \<Rightarrow> int \<Rightarrow> row list \<Rightarrow> row list \<Rightarrow>
   error + (row list \<times> row list)" where
  "split_loop data indices start end n j trainSet testSet =
     (if j < n then
        (case data_at data indices j of
           Inl e \<Rightarrow> Inl e
         | Inr r \<Rightarrow>
             if j \<ge> start \<and> j < end
             then split_loop data indices start end n (j + 1) trainSet (testSet @ [r])
             else split_loop data indices start end n (j + 1) (trainSet @ [r]) testSet)
      else Inr (trainSet, testSet))"
  by pat_completeness auto
termination
  by (relation "measure (\<lambda>(data, indices, start, end, n, j, trainSet, testSet). nat (n - j))")
    auto

declare split_loop.simps [simp del]

function fold_loop ::
  "(int \<Rightarrow> int \<Rightarrow> row list \<Rightarrow> error + RandomForest) \<Rightarrow> row list \<Rightarrow> int list \<Rightarrow> int \<Rightarrow> int \<Rightarrow>
   int \<Rightarrow> int \<Rightarrow> int \<Rightarrow> double list \<Rightarrow> error + double list" where
  "fold_loop train_fn data indices n k num_trees foldSize i scores =
     (if i < k then
        (let start = i * foldSize;
             end = (if i = k - 1 then n else (i + 1) * foldSize)
         in case split_loop data indices start end n 0 [] [] of
              Inl e \<Rightarrow> Inl e
            | Inr (trainSet, testSet) \<Rightarrow>
               (case train_fn i num_trees trainSet of
                  Inl e \<Rightarrow> Inl e
                | Inr model \<Rightarrow>
                   (case evaluate model testSet of
                      Inl e \<Rightarrow> Inl e
                    | Inr score \<Rightarrow>
                        fold_loop train_fn data indices n k num_trees foldSize (i + 1)
                          (scores @ [score]))))
      else Inr scores)"
  by pat_completeness auto
termination
  by (relation "measure (\<lambda>(train_fn, data, indices, n, k, num_trees, foldSize, i, scores).
        nat (k - i))") auto

declare fold_loop.simps [simp del]

definition perform ::
  "(int \<Rightarrow> int \<Rightarrow> row list \<Rightarrow> error + RandomForest) \<Rightarrow> (int list \<Rightarrow> int list) \<Rightarrow>
   row list \<Rightarrow> int \<Rightarrow> int \<Rightarrow> error + double" where
  "perform train_fn shuffle data k num_trees =
     (let n = int (length data);
          indices = shuffle (map int [0..<length data])
      in if k = 0 then Inl DivisionByZero
         else
           (case fold_loop train_fn data indices n k num_trees (int_div n k) 0 [] of
              Inl e \<Rightarrow> Inl e
            | Inr scores \<Rightarrow>
                Inr (fdiv (foldl fadd (Num 0) scores) (Num (real (length scores))))))"

definition kFoldCrossValidation ::
  "node \<Rightarrow> real \<Rightarrow> (int list \<Rightarrow> int list) \<Rightarrow> (int \<Rightarrow> int list \<Rightarrow> int list) \<Rightarrow>
   (int \<Rightarrow> nat \<Rightarrow> nat \<Rightarrow> nat) \<Rightarrow> (int list \<Rightarrow> int list) \<Rightarrow> RandomForest \<Rightarrow> row list \<Rightarrow> int \<Rightarrow>
   error + double" where
  "kFoldCrossValidation new_Node indeterminate iteration_order split_shuffle draws shuffle rf
     data k =
     (let n = int (length data);
          indices = shuffle (map int [0..<length data])
      in if k = 0 then Inl DivisionByZero
         else
           (case fold_loop
                   (model_train new_Node indeterminate iteration_order split_shuffle draws)
                   data indices n k (rf_num_trees rf) (int_div n k) 0 [] of
              Inl e \<Rightarrow> Inl e
            | Inr scores \<Rightarrow>
                Inr (fdiv (foldl fadd (Num 0) scores) (Num (real (length scores))))))"


section \<open>The folds as the specification describes them\<close>

text \<open>
  The specification's description of the \<open>k\<close> folds of \<open>n\<close> shuffled positions: fold \<open>i\<close>
  starts at \<open>i * (n div k)\<close> and has \<open>n div k\<close> positions, the last fold runs to \<open>n\<close>.
  The test set of run \<open>i\<close> holds the rows at the positions of fold \<open>i\<close>, the training
  set the rows at all other positions, in the order of the shuffled indices. \<open>fold_score\<close>
  is the score of run \<open>i\<close>: a new forest trained on the training set and evaluated on
  the test set.
\<close>

definition fold_start :: "nat \<Rightarrow> nat \<Rightarrow> nat \<Rightarrow> nat" where
  "fold_start n k i = i * (n div k)"

definition fold_end :: "nat \<Rightarrow> nat \<Rightarrow> nat \<Rightarrow> nat" where
  "fold_end n k i = (if i + 1 = k then n else (i + 1) * (n div k))"

definition test_positions :: "nat \<Rightarrow> nat \<Rightarrow> nat \<Rightarrow> nat list" where
  "test_positions n k i = [fold_start n k i..<fold_end n k i]"

definition train_positions :: "nat \<Rightarrow> nat \<Rightarrow> nat \<Rightarrow> nat list" where
  "train_positions n k i = [0..<fold_start n k i] @ [fold_end n k i..<n]"

definition rows_at :: "row list \<Rightarrow> int list \<Rightarrow> nat list \<Rightarrow> row list" where
  "rows_at data indices ps = map (\<lambda>j. data ! nat (indices ! j)) ps"

definition fold_score ::
  "(int \<Rightarrow> int \<Rightarrow> row list \<Rightarrow> error + RandomForest) \<Rightarrow> int \<Rightarrow> row list \<Rightarrow> int list \<Rightarrow> nat \<Rightarrow>
   nat \<Rightarrow> error + double" where
  "fold_score train_fn num_trees data indices k i =
     (case train_fn (int i) num_trees
             (rows_at data indices (train_positions (length data) k i)) of
        Inl e \<Rightarrow> Inl e
      | Inr model \<Rightarrow> evaluate model (rows_at data indices (test_positions (length data) k i)))"

section \<open>Properties of the vote tallies\<close>

text \<open>
  \<open>smallest_most_voted ps r\<close>: \<open>r\<close> is one of the predictions \<open>ps\<close>, no label has more votes
  than \<open>r\<close>, and \<open>r\<close> is the smallest of the labels with as many votes.
\<close>

definition smallest_most_voted :: "int list \<Rightarrow> int \<Rightarrow> bool" where
  "smallest_most_voted ps r \<longleftrightarrow>
     r \<in> set ps \<and>
     (\<forall>l\<in>set ps. count_list ps l \<le> count_list ps r \<and>
        (count_list ps l = count_list ps r \<longrightarrow> r \<le> l))"

text \<open>
  The vote map after the predictions \<open>ps\<close>: the entries are in ascending order of the
  labels, one for each label of \<open>ps\<close>, with its number of votes.
\<close>

definition tallied :: "(int \<times> int) list \<Rightarrow> int list \<Rightarrow> bool" where
  "tallied m ps \<longleftrightarrow>
     sorted_wrt (<) (map fst m) \<and>
     (\<forall>l. map_of m l = (if l \<in> set ps then Some (int (count_list ps l)) else None))"

text \<open>The vote vector after the predictions \<open>ps\<close>.\<close>

definition counted :: "int list \<Rightarrow> int list \<Rightarrow> bool" where
  "counted votes ps \<longleftrightarrow> (\<forall>j<length votes. votes ! j = int (count_list ps (int j)))"

text \<open>\<open>r\<close> is the position of the first greatest element of \<open>xs\<close>.\<close>

definition first_max :: "int list \<Rightarrow> nat \<Rightarrow> bool" where
  "first_max xs r \<longleftrightarrow>
     r < length xs \<and> (\<forall>j<length xs. xs ! j \<le> xs ! r) \<and> (\<forall>j<r. xs ! j < xs ! r)"

section \<open>Facts about partition_data\<close>

lemma feature_at_Inr:
  "feature_at fs i fi = Inr v \<longleftrightarrow>
     i < length fs \<and> 0 \<le> fi \<and> fi < int (length (fs ! i)) \<and> v = fs ! i ! nat fi"
  by (auto simp: feature_at_def)

lemma length_swap_rows [simp]: "length (swap_rows fs m i) = length fs"
  by (simp add: swap_rows_def)

lemma mset_swap_rows: "m < length fs \<Longrightarrow> i < length fs \<Longrightarrow> mset (swap_rows fs m i) = mset fs"
  by (simp add: swap_rows_def mset_swap)

lemma nth_swap_rows:
  "m < length fs \<Longrightarrow> i < length fs \<Longrightarrow> j < length fs \<Longrightarrow>
   swap_rows fs m i ! j = (if j = i then fs ! m else if j = m then fs ! i else fs ! j)"
  by (auto simp: swap_rows_def nth_list_update)

lemma partition_loop_frame:
  "partition_loop fs i e fi th m = Inr (fs', m') \<Longrightarrow> m \<le> i \<Longrightarrow>
   length fs' = length fs \<and> mset fs' = mset fs \<and>
   (\<forall>j. j < m \<or> e \<le> j \<longrightarrow> fs' ! j = fs ! j)"
proof (induction fs i e fi th m rule: partition_loop.induct)
  case (1 fs i e fi th m)
  show ?case
  proof (cases "i < e")
    case False
    with "1.prems" show ?thesis by (simp add: partition_loop.simps)
  next
    case True
    with "1.prems" obtain v where v: "feature_at fs i fi = Inr v"
      by (cases "feature_at fs i fi") (auto simp: partition_loop.simps)
    then have il: "i < length fs" by (simp add: feature_at_Inr)
    show ?thesis
    proof (cases "v < th")
      case lt: True
      from "1.prems" True v lt
      have r: "partition_loop (swap_rows fs m i) (i + 1) e fi th (m + 1) = Inr (fs', m')"
        by (simp add: partition_loop.simps)
      from "1.IH"(1) [OF True v lt r] "1.prems"(2)
      have ih: "length fs' = length (swap_rows fs m i)" "mset fs' = mset (swap_rows fs m i)"
        "\<forall>j. j < m + 1 \<or> e \<le> j \<longrightarrow> fs' ! j = swap_rows fs m i ! j"
        by auto
      have ml: "m < length fs" using il "1.prems"(2) by simp
      have "fs' ! j = fs ! j" if "j < m \<or> e \<le> j" for j
      proof -
        from that \<open>i < e\<close> "1.prems"(2) have "j \<noteq> m" "j \<noteq> i" by auto
        then have "swap_rows fs m i ! j = fs ! j" by (simp add: swap_rows_def)
        with that ih(3) show ?thesis by auto
      qed
      with ih ml il show ?thesis by (simp add: mset_swap_rows)
    next
      case ge: False
      from "1.prems" True v ge
      have r: "partition_loop fs (i + 1) e fi th m = Inr (fs', m')"
        by (simp add: partition_loop.simps)
      from "1.IH"(2) [OF True v ge r] "1.prems"(2) show ?thesis by auto
    qed
  qed
qed


lemma partition_loop_bounds:
  "partition_loop fs i e fi th m = Inr (fs', m') \<Longrightarrow> m \<le> m' \<and> m' - m \<le> e - i"
proof (induction fs i e fi th m rule: partition_loop.induct)
  case (1 fs i e fi th m)
  show ?case
  proof (cases "i < e")
    case False
    with "1.prems" show ?thesis by (simp add: partition_loop.simps)
  next
    case True
    with "1.prems" obtain v where v: "feature_at fs i fi = Inr v"
      by (cases "feature_at fs i fi") (auto simp: partition_loop.simps)
    show ?thesis
    proof (cases "v < th")
      case lt: True
      from "1.prems" True v lt
      have "partition_loop (swap_rows fs m i) (i + 1) e fi th (m + 1) = Inr (fs', m')"
        by (simp add: partition_loop.simps)
      from "1.IH"(1) [OF True v lt this] True show ?thesis by arith
    next
      case ge: False
      from "1.prems" True v ge
      have "partition_loop fs (i + 1) e fi th m = Inr (fs', m')"
        by (simp add: partition_loop.simps)
      from "1.IH"(2) [OF True v ge this] True show ?thesis by arith
    qed
  qed
qed

lemma partition_loop_split:
  "partition_loop fs i e fi th m = Inr (fs', m') \<Longrightarrow> m \<le> i \<Longrightarrow>
   (\<forall>j. s \<le> j \<and> j < m \<longrightarrow> below fi th (fs ! j)) \<Longrightarrow>
   (\<forall>j. m \<le> j \<and> j < i \<longrightarrow> \<not> below fi th (fs ! j)) \<Longrightarrow>
   (\<forall>j. s \<le> j \<and> j < m' \<longrightarrow> below fi th (fs' ! j)) \<and>
   (\<forall>j. m' \<le> j \<and> j < max i e \<longrightarrow> \<not> below fi th (fs' ! j))"
proof (induction fs i e fi th m rule: partition_loop.induct)
  case (1 fs i e fi th m)
  show ?case
  proof (cases "i < e")
    case False
    with "1.prems" show ?thesis by (simp add: partition_loop.simps max_def)
  next
    case True
    with "1.prems" obtain v where v: "feature_at fs i fi = Inr v"
      by (cases "feature_at fs i fi") (auto simp: partition_loop.simps)
    then have il: "i < length fs" and vv: "v = fs ! i ! nat fi"
      by (simp_all add: feature_at_Inr)
    have ml: "m < length fs" using il "1.prems"(2) by simp
    have mx: "max (i + 1) e = max i e" using True by simp
    show ?thesis
    proof (cases "v < th")
      case lt: True
      from "1.prems" True v lt
      have r: "partition_loop (swap_rows fs m i) (i + 1) e fi th (m + 1) = Inr (fs', m')"
        by (simp add: partition_loop.simps)
      have a: "\<forall>j. s \<le> j \<and> j < m + 1 \<longrightarrow> below fi th (swap_rows fs m i ! j)"
      proof (intro allI impI)
        fix j assume j: "s \<le> j \<and> j < m + 1"
        then have "j < length fs" using ml by simp
        with j ml il lt vv "1.prems"(2,3) show "below fi th (swap_rows fs m i ! j)"
          by (auto simp: nth_swap_rows below_def)
      qed
      have b: "\<forall>j. m + 1 \<le> j \<and> j < i + 1 \<longrightarrow> \<not> below fi th (swap_rows fs m i ! j)"
      proof (intro allI impI)
        fix j assume j: "m + 1 \<le> j \<and> j < i + 1"
        then have "j < length fs" using il by simp
        with j ml il "1.prems"(4) show "\<not> below fi th (swap_rows fs m i ! j)"
          by (auto simp: nth_swap_rows)
      qed
      from "1.IH"(1) [OF True v lt r _ a b] "1.prems"(2) mx show ?thesis by simp
    next
      case ge: False
      from "1.prems" True v ge
      have r: "partition_loop fs (i + 1) e fi th m = Inr (fs', m')"
        by (simp add: partition_loop.simps)
      have b: "\<forall>j. m \<le> j \<and> j < i + 1 \<longrightarrow> \<not> below fi th (fs ! j)"
      proof (intro allI impI)
        fix j assume j: "m \<le> j \<and> j < i + 1"
        show "\<not> below fi th (fs ! j)"
        proof (cases "j = i")
          case True
          with ge vv show ?thesis by (simp add: below_def)
        next
          case False
          with j "1.prems"(4) show ?thesis by simp
        qed
      qed
      from "1.IH"(2) [OF True v ge r _ "1.prems"(3) b] "1.prems"(2) mx show ?thesis by simp
    qed
  qed
qed

lemma length_rows_in: "e \<le> length fs \<Longrightarrow> length (rows_in fs s e) = e - s"
  by (simp add: rows_in_def)

lemma nth_rows_in: "e \<le> length fs \<Longrightarrow> n < e - s \<Longrightarrow> rows_in fs s e ! n = fs ! (s + n)"
  by (simp add: rows_in_def)

lemma list_all_rows_in:
  "e \<le> length fs \<Longrightarrow>
   list_all P (rows_in fs s e) \<longleftrightarrow> (\<forall>j. s \<le> j \<and> j < e \<longrightarrow> P (fs ! j))"
proof
  assume e: "e \<le> length fs" and l: "list_all P (rows_in fs s e)"
  show "\<forall>j. s \<le> j \<and> j < e \<longrightarrow> P (fs ! j)"
  proof (intro allI impI)
    fix j assume j: "s \<le> j \<and> j < e"
    then have n: "j - s < e - s" by arith
    with l e have "P (rows_in fs s e ! (j - s))" by (simp add: list_all_length length_rows_in)
    with j e n show "P (fs ! j)" by (simp add: nth_rows_in)
  qed
next
  assume e: "e \<le> length fs" and a: "\<forall>j. s \<le> j \<and> j < e \<longrightarrow> P (fs ! j)"
  show "list_all P (rows_in fs s e)"
    unfolding list_all_length
  proof (intro allI impI)
    fix n assume "n < length (rows_in fs s e)"
    then have n: "n < e - s" using e by (simp add: length_rows_in)
    then have "P (fs ! (s + n))" using a by simp
    with n e show "P (rows_in fs s e ! n)" by (simp add: nth_rows_in)
  qed
qed

lemma partition_loop_in_range:
  "partition_loop fs i e fi th m = Inr (fs', m') \<Longrightarrow> i < e \<Longrightarrow> e \<le> length fs"
proof (induction fs i e fi th m rule: partition_loop.induct)
  case (1 fs i e fi th m)
  from "1.prems" obtain v where v: "feature_at fs i fi = Inr v"
    by (cases "feature_at fs i fi") (auto simp: partition_loop.simps)
  then have il: "i < length fs" by (simp add: feature_at_Inr)
  show ?case
  proof (cases "i + 1 < e")
    case False
    with il "1.prems"(2) show ?thesis by simp
  next
    case True
    show ?thesis
    proof (cases "v < th")
      case lt: True
      from "1.prems" v lt
      have "partition_loop (swap_rows fs m i) (i + 1) e fi th (m + 1) = Inr (fs', m')"
        by (simp add: partition_loop.simps)
      from "1.IH"(1) [OF "1.prems"(2) v lt this True] show ?thesis by simp
    next
      case ge: False
      from "1.prems" v ge
      have "partition_loop fs (i + 1) e fi th m = Inr (fs', m')"
        by (simp add: partition_loop.simps)
      from "1.IH"(2) [OF "1.prems"(2) v ge this True] show ?thesis by simp
    qed
  qed
qed

lemma midpoint_inside: "s + 2 \<le> e \<Longrightarrow> s < midpoint s e \<and> midpoint s e < e"
  by (simp add: midpoint_def)

lemma partition_data_mid:
  assumes "partition_data fs s e fi th = Inr (fs', mid)" and "s + 2 \<le> e"
  shows "s < mid \<and> mid < e"
proof -
  from assms(1) obtain m' where
    l: "partition_loop fs s e fi th s = Inr (fs', m')" and
    m: "mid = (if m' = s \<or> m' = e then midpoint s e else m')"
    by (auto simp: partition_data_def split: sum.splits prod.splits if_splits)
  from partition_loop_bounds [OF l] assms(2) have "s \<le> m'" "m' \<le> e" by auto
  with m midpoint_inside [OF assms(2)] show ?thesis by auto
qed



lemma partition_loop_skip:
  "e \<le> i \<Longrightarrow> partition_loop fs i e fi th m = Inr (fs, m)"
  by (simp add: partition_loop.simps)

lemma list_split3:
  assumes "s \<le> e" "e \<le> length fs"
  shows "fs = take s fs @ rows_in fs s e @ drop e fs"
proof -
  have "drop s fs = take (e - s) (drop s fs) @ drop (e - s) (drop s fs)"
    by (simp only: append_take_drop_id)
  also have "drop (e - s) (drop s fs) = drop e fs" using assms by simp
  finally have "drop s fs = rows_in fs s e @ drop e fs" by (simp add: rows_in_def)
  then have "take s fs @ drop s fs = take s fs @ rows_in fs s e @ drop e fs" by simp
  then show ?thesis by simp
qed

lemma frame_mset_rows_in:
  assumes len: "length fs' = length fs" and ms: "mset fs' = mset fs"
    and out: "\<forall>j. j < s \<or> e \<le> j \<longrightarrow> fs' ! j = fs ! j"
    and se: "s \<le> e" "e \<le> length fs"
  shows "mset (rows_in fs' s e) = mset (rows_in fs s e)"
proof -
  have t: "take s fs' = take s fs"
    using len out se by (intro nth_equalityI) auto
  have d: "drop e fs' = drop e fs"
    using len out se by (intro nth_equalityI) auto
  have "mset fs' = mset (take s fs') + mset (rows_in fs' s e) + mset (drop e fs')"
    using list_split3 [of s e fs'] se len by (metis mset_append add.assoc)
  moreover have "mset fs = mset (take s fs) + mset (rows_in fs s e) + mset (drop e fs)"
    using list_split3 [of s e fs] se by (metis mset_append add.assoc)
  ultimately show ?thesis using ms t d by simp
qed

lemma partition_data_frame:
  assumes "partition_data fs s e fi th = Inr (fs', mid)"
  shows "length fs' = length fs \<and> mset fs' = mset fs \<and>
         (\<forall>j. j < s \<or> e \<le> j \<longrightarrow> fs' ! j = fs ! j) \<and>
         mset (rows_in fs' s e) = mset (rows_in fs s e)"
proof -
  from assms obtain m' where l: "partition_loop fs s e fi th s = Inr (fs', m')"
    by (auto simp: partition_data_def split: sum.splits prod.splits if_splits)
  from partition_loop_frame [OF l] have
    f: "length fs' = length fs" "mset fs' = mset fs"
       "\<forall>j. j < s \<or> e \<le> j \<longrightarrow> fs' ! j = fs ! j"
    by auto
  have "mset (rows_in fs' s e) = mset (rows_in fs s e)"
  proof (cases "s < e")
    case True
    from partition_loop_in_range [OF l True] have "e \<le> length fs" .
    with f True show ?thesis by (intro frame_mset_rows_in) auto
  next
    case False
    with l have "fs' = fs" by (simp add: partition_loop_skip)
    then show ?thesis by simp
  qed
  with f show ?thesis by simp
qed

lemma rows_in_append:
  "s \<le> m \<Longrightarrow> m \<le> e \<Longrightarrow> rows_in fs s e = rows_in fs s m @ rows_in fs m e"
proof -
  assume a: "s \<le> m" "m \<le> e"
  have "take (e - s) (drop s fs) = take ((m - s) + (e - m)) (drop s fs)" using a by simp
  also have "\<dots> = take (m - s) (drop s fs) @ take (e - m) (drop (m - s) (drop s fs))"
    by (simp only: take_add)
  also have "drop (m - s) (drop s fs) = drop m fs" using a by simp
  finally show ?thesis by (simp add: rows_in_def)
qed

lemma partition_data_count:
  assumes p: "partition_data fs s e fi th = Inr (fs', mid)" and se: "s \<le> e"
  defines "c \<equiv> below_count fs s e fi th"
  shows "split_at fs' s (s + c) e fi th \<and>
         mid = (if c = 0 \<or> s + c = e then midpoint s e else s + c)"
proof -
  from p obtain m' where l: "partition_loop fs s e fi th s = Inr (fs', m')"
    and mid: "mid = (if m' = s \<or> m' = e then midpoint s e else m')"
    by (auto simp: partition_data_def split: sum.splits prod.splits if_splits)
  from partition_loop_bounds [OF l] se have b: "s \<le> m'" "m' \<le> e" by auto
  have "(\<forall>j. s \<le> j \<and> j < m' \<longrightarrow> below fi th (fs' ! j)) \<and>
        (\<forall>j. m' \<le> j \<and> j < max s e \<longrightarrow> \<not> below fi th (fs' ! j))"
    by (rule partition_loop_split [OF l]) auto
  with se have
    sp: "\<forall>j. s \<le> j \<and> j < m' \<longrightarrow> below fi th (fs' ! j)"
        "\<forall>j. m' \<le> j \<and> j < e \<longrightarrow> \<not> below fi th (fs' ! j)"
    by (simp_all add: max_def)
  from partition_data_frame [OF p] have
    len: "length fs' = length fs" and ms: "mset (rows_in fs' s e) = mset (rows_in fs s e)"
    by auto
  have el: "e \<le> length fs'" if "s < e"
    using partition_loop_in_range [OF l that] len by simp
  have sa: "split_at fs' s m' e fi th"
  proof (cases "s < e")
    case True
    with el b sp show ?thesis by (simp add: split_at_def list_all_rows_in)
  next
    case False
    with b have "m' = s" "e = s" by auto
    then show ?thesis by (simp add: split_at_def rows_in_def)
  qed
  have "c = size (filter_mset (below fi th) (mset (rows_in fs s e)))"
    unfolding c_def below_count_def by (metis mset_filter size_mset)
  also have "\<dots> = length (filter (below fi th) (rows_in fs' s e))"
    unfolding ms [symmetric] by (metis mset_filter size_mset)
  also have "rows_in fs' s e = rows_in fs' s m' @ rows_in fs' m' e"
    using b by (rule rows_in_append)
  also have "length (filter (below fi th) (rows_in fs' s m' @ rows_in fs' m' e))
      = length (rows_in fs' s m')"
    using sa by (simp add: split_at_def list_all_iff filter_empty_conv) 
  also have "\<dots> = m' - s"
  proof (cases "s < e")
    case True
    with el b show ?thesis by (simp add: length_rows_in)
  next
    case False
    with b show ?thesis by (simp add: rows_in_def)
  qed
  finally have c: "s + c = m'" using b by simp
  with sa mid show ?thesis by auto
qed

section \<open>Termination of build_tree\<close>

lemma should_be_leaf_loop_False:
  "should_be_leaf_loop labels i e f = Inr False \<Longrightarrow> i < e"
  by (subst (asm) should_be_leaf_loop.simps) (simp split: if_splits)

lemma should_be_leaf_False:
  "should_be_leaf labels s e = Inr False \<Longrightarrow> s + 2 \<le> e"
  by (auto simp: should_be_leaf_def split: sum.splits dest: should_be_leaf_loop_False)

lemma split_progress:
  "should_be_leaf labels s e = Inr False \<Longrightarrow> partition_data fs s e fi th = Inr (fs', mid) \<Longrightarrow>
   mid - s < e - s \<and> e - mid < e - s"
  using partition_data_mid [of fs s e fi th fs' mid] should_be_leaf_False [of labels s e]
  by auto

text \<open>
  A split is only attempted on a range that \<open>should_be_leaf\<close> rejects, which has two rows
  at least; both child ranges are then shorter, so every call of \<open>build_tree\<close> is in the
  domain of the recursion.
\<close>

lemma build_tree_total: "All build_tree_dom"
  by (rule "build_tree.termination"
        [of "measure (\<lambda>(new_Node, indeterminate, node, features, labels, start, end,
               sampled_features). end - start)"])
     (auto dest: split_progress)

termination build_tree
  using build_tree_total by blast

declare build_tree.simps [simp del]

section \<open>The split point lies inside the range\<close>

text \<open>
  C1. On a range \<open>[start, end)\<close> with at least two rows, the split index that
  \<open>partition_data\<close> returns satisfies \<open>start < mid < end\<close>, so both child ranges have a row
  and are shorter than the range; and the recursion of \<open>build_tree\<close> terminates on every
  input: every argument tuple is in the domain \<open>build_tree_dom\<close> of the recursion.
\<close>

theorem partition_data_progress:
  "(start + 2 \<le> end \<and>
      partition_data features start end fi th = Inr (features', mid)
    \<longrightarrow> start < mid \<and> mid < end) \<and>
   build_tree_dom
     (new_Node, indeterminate, node, features, labels, start, end, sampled_features)"
proof
  show "start + 2 \<le> end \<and>
      partition_data features start end fi th = Inr (features', mid)
    \<longrightarrow> start < mid \<and> mid < end"
    using partition_data_mid by blast
  show "build_tree_dom
     (new_Node, indeterminate, node, features, labels, start, end, sampled_features)"
    using build_tree_total by blast
qed

lemma partition_example:
  "partition_data [[5], [1], [7]] 0 3 0 4 = Inr ([[1], [5], [7]], 1)"
  by (simp add: partition_data_def partition_loop.simps feature_at_def swap_rows_def)

theorem partition_data_progress_witness:
  "partition_data [[5], [1], [7]] 0 3 0 4 = Inr ([[1], [5], [7]], 1) \<and> (0::nat) < 1 \<and> (1::nat) < 3 \<and>
   build_tree_dom (Node True 0 0 0 0 None None, 0, Node True 0 0 0 0 None None,
     [[5], [1], [7]], [0, 1, 0], 0, 3, [0])"
  using partition_data_progress [of 0 3 "[[5], [1], [7]]" 0 4 "[[1], [5], [7]]" 1
    "Node True 0 0 0 0 None None" 0 "Node True 0 0 0 0 None None" "[0, 1, 0]" "[0]"]
    partition_example
  by simp


section \<open>What partition_data does to the rows\<close>

text \<open>
  C2, as stated, fails: with no row below the threshold the loop leaves \<open>mid = start\<close>, the
  guard moves \<open>mid\<close> to the middle of the range, and the rows before it are not below the
  threshold.
\<close>

theorem partition_data_split_counterexample:
  "partition_data [[1], [2]] 0 2 0 0 = Inr ([[1], [2]], 1) \<and>
   \<not> split_at [[1], [2]] 0 1 2 0 0"
  by (simp add: partition_data_def partition_loop.simps feature_at_def midpoint_def
        split_at_def rows_in_def below_def)

text \<open>
  C2, amended. After \<open>partition_data\<close> the rows below the threshold are the first \<open>c\<close> rows
  of the range, \<open>c\<close> being their number, and the other rows follow. The returned \<open>mid\<close> is
  \<open>start + c\<close>, with the rows of \<open>[start, mid)\<close> below the threshold and the rows of
  \<open>[mid, end)\<close> not below it, whenever some row of the range is below the threshold and
  some row is not; when no row or every row is, \<open>mid\<close> is \<open>start + (end - start) / 2\<close>.
\<close>

theorem partition_data_split:
  assumes "partition_data features start end fi th = Inr (features', mid)"
    and "start \<le> end"
  shows "split_at features' start (start + below_count features start end fi th) end fi th \<and>
         mid = (if below_count features start end fi th = 0 \<or>
                   start + below_count features start end fi th = end
                then midpoint start end
                else start + below_count features start end fi th) \<and>
         (0 < below_count features start end fi th \<and>
          start + below_count features start end fi th < end
          \<longrightarrow> split_at features' start mid end fi th)"
  using partition_data_count [OF assms] by auto

theorem partition_data_split_witness:
  "partition_data [[5], [1], [7]] 0 3 0 4 = Inr ([[1], [5], [7]], 1) \<and> (0::nat) \<le> 3 \<and>
   below_count [[5], [1], [7]] 0 3 0 4 = 1 \<and>
   split_at [[1], [5], [7]] 0 1 3 0 4"
proof -
  have c: "below_count [[5], [1], [7]] 0 3 0 4 = 1"
    by (simp add: below_count_def rows_in_def below_def)
  from partition_data_split [OF partition_example] c partition_example
  show ?thesis by simp
qed

text \<open>
  C3. \<open>partition_data\<close> has the feature matrix as its only vector argument and \<open>build_tree\<close>
  passes \<open>labels\<close> on as it got it, so the labels keep their positions. The matrix that
  \<open>partition_data\<close> returns has the rows of the one it was given: the rows outside
  \<open>[start, end)\<close> are where they were, and the rows of the range are the same rows in
  some order.
\<close>

theorem partition_data_permutes_features_only:
  assumes "partition_data features start end fi th = Inr (features', mid)"
  shows "length features' = length features \<and> mset features' = mset features \<and>
         (\<forall>j. j < start \<or> end \<le> j \<longrightarrow> features' ! j = features ! j) \<and>
         mset (rows_in features' start end) = mset (rows_in features start end)"
  using partition_data_frame [OF assms] .

lemma partition_example_inner:
  "partition_data [[9], [5], [1], [7]] 1 3 0 4 = Inr ([[9], [1], [5], [7]], 2)"
  by (simp add: partition_data_def partition_loop.simps feature_at_def swap_rows_def)

theorem partition_data_permutes_features_only_witness:
  "partition_data [[9], [5], [1], [7]] 1 3 0 4 = Inr ([[9], [1], [5], [7]], 2) \<and>
   mset [[9], [1], [5], [7]] = mset [[9], [5], [1], [7::real]] \<and>
   [[9], [1], [5], [7::real]] ! 0 = [[9], [5], [1], [7]] ! 0 \<and>
   [[9], [1], [5], [7::real]] ! 3 = [[9], [5], [1], [7]] ! 3 \<and>
   mset (rows_in [[9], [1], [5], [7]] 1 3) = mset (rows_in [[9], [5], [1], [7]] 1 3)"
  using partition_data_permutes_features_only [OF partition_example_inner]
    partition_example_inner
  by simp


section \<open>Pure ranges become leaves\<close>

lemma should_be_leaf_loop_pure:
  "e \<le> length labels \<Longrightarrow> (\<forall>j. i \<le> j \<and> j < e \<longrightarrow> labels ! j = f) \<Longrightarrow>
   should_be_leaf_loop labels i e f = Inr True"
proof (induction labels i e f rule: should_be_leaf_loop.induct)
  case (1 labels i e f)
  show ?case
  proof (cases "i < e")
    case False
    then show ?thesis by (simp add: should_be_leaf_loop.simps)
  next
    case True
    with "1.prems" have l: "label_at labels i = Inr f" by (simp add: label_at_def)
    have "should_be_leaf_loop labels (i + 1) e f = Inr True"
      using "1.IH" [OF True l] "1.prems" by simp
    with True l show ?thesis by (subst should_be_leaf_loop.simps) simp
  qed
qed

lemma should_be_leaf_pure:
  "s < e \<Longrightarrow> e \<le> length labels \<Longrightarrow> (\<forall>j. s \<le> j \<and> j < e \<longrightarrow> labels ! j = f) \<Longrightarrow>
   should_be_leaf labels s e = Inr True"
  by (simp add: should_be_leaf_def label_at_def should_be_leaf_loop_pure)

lemma label_counts_loop_pure:
  "e \<le> length labels \<Longrightarrow> (\<forall>j. i \<le> j \<and> j < e \<longrightarrow> labels ! j = f) \<Longrightarrow>
   label_counts_loop labels i e [(f, c)] = Inr [(f, c + int (e - i))]"
proof (induction labels i e "[(f, c)]" arbitrary: c rule: label_counts_loop.induct)
  case (1 labels i e)
  show ?case
  proof (cases "i < e")
    case False
    then show ?thesis by (simp add: label_counts_loop.simps)
  next
    case True
    with "1.prems" have l: "label_at labels i = Inr f" by (simp add: label_at_def)
    have m: "count_add f 1 [(f, c)] = [(f, c + 1)]" by simp
    have "label_counts_loop labels (i + 1) e [(f, c + 1)] = Inr [(f, c + 1 + int (e - (i + 1)))]"
      using "1.hyps" [OF True l m] "1.prems" by simp
    moreover have "c + 1 + int (e - (i + 1)) = c + int (e - i)" using True by simp
    ultimately show ?thesis using True l by (subst label_counts_loop.simps) simp
  qed
qed

lemma determine_label_pure:
  assumes "s < e" "e \<le> length labels" "\<forall>j. s \<le> j \<and> j < e \<longrightarrow> labels ! j = f"
  shows "determine_label labels s e = Inr f"
proof -
  from assms have l: "label_at labels s = Inr f" by (simp add: label_at_def)
  have "label_counts_loop labels (s + 1) e [(f, 1)] = Inr [(f, 1 + int (e - (s + 1)))]"
    using assms by (intro label_counts_loop_pure) auto
  with assms(1) l have "label_counts_loop labels s e [] = Inr [(f, 1 + int (e - (s + 1)))]"
    by (subst label_counts_loop.simps) simp
  then show ?thesis by (simp add: determine_label_def)
qed

lemma build_tree_pure_leaf:
  assumes "start < end" "end \<le> length labels"
    and "\<forall>j. start \<le> j \<and> j < end \<longrightarrow> labels ! j = l"
  shows "build_tree new_Node indeterminate node features labels start end sampled_features =
         Inr (Node True l (feature_index node) (node_threshold node) (gini_index node)
                (left node) (right node), features)"
proof -
  have sb: "should_be_leaf labels start end = Inr True"
    using assms by (rule should_be_leaf_pure)
  have dl: "determine_label labels start end = Inr l"
    using assms by (rule determine_label_pure)
  from assms(1) sb dl show ?thesis by (subst build_tree.simps) simp
qed

text \<open>
  Two rows with different labels: the range \<open>[0, 2)\<close> is split at \<open>mid = 1\<close> and both
  children are built on ranges of one row.
\<close>

lemma build_tree_two_rows:
  "build_tree new_Node indeterminate node [[1], [2]] [0, 1] 0 2 [0] =
   Inr (Node (is_leaf node) (label node) 0 (3 / 2) 0
         (Some (Node True 0 (feature_index new_Node) (node_threshold new_Node)
                  (gini_index new_Node) (left new_Node) (right new_Node)))
         (Some (Node True 1 (feature_index new_Node) (node_threshold new_Node)
                  (gini_index new_Node) (left new_Node) (right new_Node))),
        [[1], [2]])"
proof -
  have sb: "should_be_leaf [0, 1] 0 2 = Inr False"
    by (simp add: should_be_leaf_def should_be_leaf_loop.simps label_at_def)
  have fb: "find_best_split [[1], [2]] [0, 1] 0 2 0 = Inr \<lparr>gini = 0, threshold = 3 / 2\<rparr>"
    by (simp add: find_best_split_def right_counts_loop.simps label_at_def size_t_pred_def
          find_best_split_loop.simps feature_at_def calculate_gini_index_def DBL_MAX_def)
  have bs: "best_split_loop [[1], [2]] [0, 1] 0 2 [0] (- 1, indeterminate, DBL_MAX) =
      Inr (0, 3 / 2, 0)"
    by (simp add: fb DBL_MAX_def)
  have pd: "partition_data [[1], [2]] 0 2 0 (3 / 2) = Inr ([[1], [2]], 1)"
    by (simp add: partition_data_def partition_loop.simps feature_at_def swap_rows_def)
  have l: "build_tree new_Node indeterminate new_Node [[1], [2]] [0, 1] 0 (Suc 0) [0] =
      Inr (Node True 0 (feature_index new_Node) (node_threshold new_Node)
             (gini_index new_Node) (left new_Node) (right new_Node), [[1], [2]])"
    by (rule build_tree_pure_leaf) auto
  have r: "build_tree new_Node indeterminate new_Node [[1], [2]] [0, 1] (Suc 0) 2 [0] =
      Inr (Node True 1 (feature_index new_Node) (node_threshold new_Node)
             (gini_index new_Node) (left new_Node) (right new_Node), [[1], [2]])"
    by (rule build_tree_pure_leaf) (auto simp: less_Suc_eq)
  show ?thesis
    by (subst build_tree.simps) (simp add: sb bs pd l r del: best_split_loop.simps)
qed

text \<open>
  C7. On a range \<open>[start, end)\<close> that is not empty and whose labels are all \<open>l\<close>,
  \<open>build_tree\<close> returns the node as a leaf with label \<open>l\<close>: its other fields and its
  children are the ones it had, and the feature matrix is the one given, so nothing is
  split and nothing is built below. No argument of \<open>build_tree\<close> bounds the depth or the
  size of a leaf; the run on two rows with different labels builds both children on
  ranges of one row.
\<close>

theorem build_tree_purity:
  "(start < end \<and> end \<le> length labels \<and> (\<forall>j. start \<le> j \<and> j < end \<longrightarrow> labels ! j = l)
    \<longrightarrow> build_tree new_Node indeterminate node features labels start end sampled_features =
        Inr (Node True l (feature_index node) (node_threshold node) (gini_index node)
               (left node) (right node), features)) \<and>
   build_tree new_Node indeterminate node [[1], [2]] [0, 1] 0 2 [0] =
     Inr (Node (is_leaf node) (label node) 0 (3 / 2) 0
           (Some (Node True 0 (feature_index new_Node) (node_threshold new_Node)
                    (gini_index new_Node) (left new_Node) (right new_Node)))
           (Some (Node True 1 (feature_index new_Node) (node_threshold new_Node)
                    (gini_index new_Node) (left new_Node) (right new_Node))),
          [[1], [2]])"
  using build_tree_pure_leaf build_tree_two_rows by blast

theorem build_tree_purity_witness:
  "(0::nat) < 3 \<and> (3::nat) \<le> length [7, 7, 7::int] \<and>
   list_all (\<lambda>x. x = 7) [7, 7, 7::int] \<and>
   build_tree (Node False 0 0 0 0 None None) 0 (Node False 0 0 0 0 None None)
     [[1], [2], [3]] [7, 7, 7] 0 3 [0] =
   Inr (Node True 7 0 0 0 None None, [[1], [2], [3]])"
proof -
  have a: "\<forall>j. 0 \<le> j \<and> j < 3 \<longrightarrow> [7, 7, 7::int] ! j = 7"
    by (simp add: numeral_3_eq_3 less_Suc_eq)
  from build_tree_purity [of 0 3 "[7, 7, 7]" 7 "Node False 0 0 0 0 None None" 0
      "Node False 0 0 0 0 None None" "[[1], [2], [3]]" "[0]"] a
  show ?thesis by simp
qed

section \<open>No candidate feature\<close>

text \<open>
  C8. With an empty set of candidate features the search leaves \<open>best_feature = -1\<close> and
  \<open>best_threshold\<close> unassigned, and \<open>build_tree\<close> goes on to call \<open>partition_data\<close> with
  them: the first row is read at feature index \<open>-1\<close>. Training on the single-column
  dataset \<open>{{0}, {1}}\<close> does so.
\<close>

theorem build_tree_no_candidate_feature:
  "best_split_loop features labels start end [] (- 1, indeterminate, DBL_MAX) =
     Inr (- 1, indeterminate, DBL_MAX) \<and>
   partition_data [[], []] 0 2 (- 1) indeterminate = Inl FeatureIndexOutOfRange \<and>
   build_tree new_Node indeterminate node [[], []] [0, 1] 0 2 [] = Inl FeatureIndexOutOfRange \<and>
   train new_Node indeterminate rev node [[0], [1]] [] = Inl FeatureIndexOutOfRange"
proof -
  have sb: "should_be_leaf [0, 1] 0 2 = Inr False"
    by (simp add: should_be_leaf_def should_be_leaf_loop.simps label_at_def)
  have pd: "partition_data [[], []] 0 2 (- 1) indeterminate = Inl FeatureIndexOutOfRange"
    by (simp add: partition_data_def partition_loop.simps feature_at_def)
  have bt: "build_tree new_Node indeterminate node [[], []] [0, 1] 0 2 [] =
      Inl FeatureIndexOutOfRange"
    by (subst build_tree.simps) (simp add: sb pd)
  have bt': "build_tree new_Node indeterminate node [[], []] [0, 1] 0 (Suc (Suc 0)) [] =
      Inl FeatureIndexOutOfRange"
    using bt by (simp add: numeral_2_eq_2)
  have "train new_Node indeterminate rev node [[0], [1]] [] = Inl FeatureIndexOutOfRange"
    by (simp add: train_def static_cast_int_def bt')
  with pd bt show ?thesis by simp
qed

section \<open>evaluate on an empty test set\<close>

text \<open>
  On a test set that is not empty, \<open>evaluate\<close> returns a number between \<open>0\<close> and \<open>1\<close>
  whenever it returns.
\<close>

lemma evaluate_loop_bounds:
  "evaluate_loop predict_fn test_data c = Inr c' \<Longrightarrow>
   c \<le> c' \<and> c' \<le> c + int (length test_data)"
proof (induction test_data arbitrary: c)
  case Nil
  then show ?case by simp
next
  case (Cons data_point rest)
  from Cons.prems obtain predicted where
    r: "evaluate_loop predict_fn rest
          (if predicted = static_cast_int (last data_point) then c + 1 else c) = Inr c'"
    by (auto split: if_splits sum.splits)
  from Cons.IH [OF r] show ?case by (auto split: if_splits)
qed

lemma evaluate_unit_interval:
  assumes "evaluate rf test_data = Inr d" and "test_data \<noteq> []"
  shows "\<exists>x. d = Num x \<and> 0 \<le> x \<and> x \<le> 1"
proof -
  from assms(1) obtain c where
    c: "evaluate_loop (RandomForest_predict rf) test_data 0 = Inr c"
    and d: "d = fdiv (Num (real_of_int c)) (Num (real (length test_data)))"
    by (auto simp: evaluate_def split: sum.splits)
  from evaluate_loop_bounds [OF c] have "0 \<le> c" "c \<le> int (length test_data)" by auto
  then have "0 \<le> real_of_int c" "real_of_int c \<le> real (length test_data)" by linarith+
  moreover from assms(2) have "0 < real (length test_data)" by simp
  ultimately show ?thesis using d by (simp add: divide_le_eq_1)
qed

text \<open>
  C6. On an empty test set both versions of \<open>evaluate\<close> divide \<open>0\<close> by \<open>0\<close> and return NaN;
  no branch looks at the size of the test set first.
\<close>

theorem evaluate_empty_is_NaN:
  "evaluate rf [] = Inr NaN \<and> evaluate_alt rf [] = Inr NaN"
  by (simp add: evaluate_def evaluate_alt_def)


section \<open>Majority vote\<close>

lemma count_add_keys: "fst ` set (count_add k d m) = insert k (fst ` set m)"
proof (induction m)
  case Nil
  show ?case by simp
next
  case (Cons a m)
  obtain k' c where a: "a = (k', c)" by (cases a)
  show ?case unfolding a using Cons.IH by (simp add: insert_commute)
qed

lemma count_add_above:
  assumes "\<forall>x\<in>set m. k' < fst x" and "k' < k"
  shows "\<forall>x\<in>set (count_add k d m). k' < fst x"
proof -
  from assms have "\<forall>y\<in>insert k (fst ` set m). k' < y" by auto
  then have "\<forall>y\<in>fst ` set (count_add k d m). k' < y" by (simp only: count_add_keys)
  then show ?thesis by auto
qed

lemma count_add_sorted:
  "sorted_wrt (<) (map fst m) \<Longrightarrow> sorted_wrt (<) (map fst (count_add k d m))"
proof (induction m)
  case Nil
  then show ?case by simp
next
  case (Cons a m)
  obtain k' c where a: "a = (k', c)" by (cases a)
  from Cons.prems a have lt: "\<forall>x\<in>set m. k' < fst x" and sm: "sorted_wrt (<) (map fst m)"
    by auto
  show ?case
  proof (cases "k < k'")
    case True
    with Cons.prems a lt show ?thesis by (auto intro: less_trans)
  next
    case False
    show ?thesis
    proof (cases "k = k'")
      case True
      with Cons.prems a show ?thesis by auto
    next
      case ne: False
      with False have "k' < k" by simp
      with lt have "\<forall>x\<in>set (count_add k d m). k' < fst x" by (rule count_add_above)
      with Cons.IH [OF sm] a False ne show ?thesis by simp
    qed
  qed
qed

lemma count_add_map_of:
  "sorted_wrt (<) (map fst m) \<Longrightarrow>
   map_of (count_add k d m) =
     (map_of m)(k \<mapsto> (case map_of m k of None \<Rightarrow> d | Some c \<Rightarrow> c + d))"
proof (induction m)
  case Nil
  then show ?case by simp
next
  case (Cons a m)
  obtain k' c where a: "a = (k', c)" by (cases a)
  from Cons.prems a have lt: "\<forall>x\<in>set m. k' < fst x" and sm: "sorted_wrt (<) (map fst m)"
    by auto
  show ?case
  proof (cases "k < k'")
    case True
    then have "k \<notin> fst ` set m" using lt by (auto dest: less_trans)
    then have "map_of m k = None" by (simp add: map_of_eq_None_iff)
    with True a show ?thesis by auto
  next
    case False
    show ?thesis
    proof (cases "k = k'")
      case True
      with a show ?thesis by auto
    next
      case ne: False
      with False Cons.IH [OF sm] a show ?thesis by (auto simp: fun_upd_twist)
    qed
  qed
qed

lemma tallied_step: "tallied m ps \<Longrightarrow> tallied (count_add p 1 m) (ps @ [p])"
  unfolding tallied_def
  by (auto simp: count_add_sorted count_add_map_of)

lemma tallied_fold: "tallied m ps \<Longrightarrow> tallied (fold (\<lambda>p. count_add p 1) qs m) (ps @ qs)"
proof (induction qs arbitrary: m ps)
  case Nil
  then show ?case by simp
next
  case (Cons q qs)
  from Cons.IH [OF tallied_step [OF Cons.prems, of q]] show ?case by simp
qed

lemma vote_count_loop_fold:
  "map (\<lambda>t. predict t feature) ts = map Inr ps \<Longrightarrow>
   vote_count_loop ts feature m = Inr (fold (\<lambda>p. count_add p 1) ps m)"
  by (induction ts arbitrary: ps m) auto

lemma majority_scan_first_max:
  "sorted_wrt (<) (a # map fst m) \<Longrightarrow> majority_scan m a b = (r, c) \<Longrightarrow>
   (r, c) \<in> set ((a, b) # m) \<and>
   (\<forall>(l', c') \<in> set ((a, b) # m). c' \<le> c \<and> (c' = c \<longrightarrow> r \<le> l'))"
proof (induction m arbitrary: a b)
  case Nil
  then show ?case by simp
next
  case (Cons x m)
  obtain l v where x: "x = (l, v)" by (cases x)
  from Cons.prems(1) x have al: "a < l" and am: "\<forall>y\<in>set m. a < fst y"
    and lm: "sorted_wrt (<) (l # map fst m)" by auto
  show ?case
  proof (cases "v > b")
    case True
    with Cons.prems(2) x have "majority_scan m l v = (r, c)" by simp
    from Cons.IH [OF lm this] True x show ?thesis by auto
  next
    case False
    with Cons.prems(2) x have s: "majority_scan m a b = (r, c)" by simp
    have "sorted_wrt (<) (a # map fst m)" using am lm by auto
    from Cons.IH [OF this s] False x al show ?thesis by auto
  qed
qed


lemma smallest_most_voted_unique:
  "smallest_most_voted ps r \<Longrightarrow> smallest_most_voted ps r' \<Longrightarrow> r = r'"
  unfolding smallest_most_voted_def by (meson antisym)

lemma tallied_majority:
  assumes t: "tallied m ps" and ne: "ps \<noteq> []"
  shows "smallest_most_voted ps (fst (majority_scan m (- 1) 0))"
proof -
  from t have srt: "sorted_wrt (<) (map fst m)"
    and mo: "\<And>l. map_of m l = (if l \<in> set ps then Some (int (count_list ps l)) else None)"
    by (auto simp: tallied_def)
  from srt have dist: "distinct (map fst m)" by (simp add: strict_sorted_iff)
  have mem: "(l, c) \<in> set m \<longleftrightarrow> l \<in> set ps \<and> c = int (count_list ps l)" for l c
    using map_of_eq_Some_iff [OF dist, of l c] mo [of l] by (auto split: if_splits)
  from ne obtain p where "p \<in> set ps" by (cases ps) auto
  then have "(p, int (count_list ps p)) \<in> set m" by (simp add: mem)
  then obtain l v m' where m: "m = (l, v) # m'" by (cases m) auto
  then have "(l, v) \<in> set m" by simp
  then have lv: "l \<in> set ps" "v = int (count_list ps l)" by (simp_all add: mem)
  then have "0 < v" using count_list_0_iff [of ps l] by simp
  obtain r c where rc: "majority_scan m' l v = (r, c)" by (cases "majority_scan m' l v")
  with m \<open>0 < v\<close> have res: "majority_scan m (- 1) 0 = (r, c)" by simp
  from srt m have "sorted_wrt (<) (l # map fst m')" by simp
  from majority_scan_first_max [OF this rc] m have
    in_m: "(r, c) \<in> set m" and
    mx: "\<forall>(l', c') \<in> set m. c' \<le> c \<and> (c' = c \<longrightarrow> r \<le> l')"
    by auto
  from in_m have r: "r \<in> set ps" "c = int (count_list ps r)" by (simp_all add: mem)
  have "count_list ps l' \<le> count_list ps r \<and> (count_list ps l' = count_list ps r \<longrightarrow> r \<le> l')"
    if "l' \<in> set ps" for l'
  proof -
    from that have "(l', int (count_list ps l')) \<in> set m" by (simp add: mem)
    with mx r(2) show ?thesis by auto
  qed
  with r(1) res show ?thesis by (simp add: smallest_most_voted_def)
qed

lemma RandomForest_predict_smallest_most_voted:
  assumes "map (\<lambda>t. predict t feature) (rf_trees rf) = map Inr ps" and "ps \<noteq> []"
  shows "\<exists>r. RandomForest_predict rf feature = Inr r \<and> smallest_most_voted ps r"
proof -
  have "tallied [] []" by (simp add: tallied_def)
  from tallied_fold [OF this, of ps] have "tallied (fold (\<lambda>p. count_add p 1) ps []) ps" by simp
  from tallied_majority [OF this assms(2)] vote_count_loop_fold [OF assms(1), of "[]"]
  show ?thesis by (simp add: RandomForest_predict_def)
qed

lemma counted_step:
  "counted v ps \<Longrightarrow> 0 \<le> p \<Longrightarrow> p < int (length v) \<Longrightarrow>
   counted (v[nat p := v ! nat p + 1]) (ps @ [p])"
  unfolding counted_def by (auto simp: nth_list_update)

lemma votes_loop_result:
  "map (\<lambda>t. predict t feature) ts = map Inr qs \<Longrightarrow> counted v ps \<Longrightarrow>
   (if \<forall>p\<in>set qs. 0 \<le> p \<and> p < int (length v)
    then \<exists>v'. votes_loop ts feature v = Inr v' \<and> length v' = length v \<and> counted v' (ps @ qs)
    else votes_loop ts feature v = Inl VoteIndexOutOfRange)"
proof (induction ts arbitrary: qs v ps)
  case Nil
  then show ?case by simp
next
  case (Cons t ts)
  from Cons.prems(1) obtain q qs' where qs: "qs = q # qs'" and q: "predict t feature = Inr q"
    and rest: "map (\<lambda>t. predict t feature) ts = map Inr qs'"
    by (cases qs) auto
  show ?case
  proof (cases "0 \<le> q \<and> q < int (length v)")
    case False
    with qs q show ?thesis by auto
  next
    case True
    let ?v = "v[nat q := v ! nat q + 1]"
    from True Cons.prems(2) have c: "counted ?v (ps @ [q])" by (simp add: counted_step)
    from Cons.IH [OF rest c] True q qs show ?thesis by (auto split: if_splits)
  qed
qed

lemma max_element_loop_first_max:
  "first_max pre largest \<Longrightarrow> lv = pre ! largest \<Longrightarrow> i = length pre \<Longrightarrow>
   first_max (pre @ xs) (max_element_loop xs i largest lv)"
proof (induction xs arbitrary: pre largest lv i)
  case Nil
  then show ?case by simp
next
  case (Cons x xs)
  show ?case
  proof (cases "lv < x")
    case True
    have "first_max (pre @ [x]) (length pre)"
      using Cons.prems True unfolding first_max_def
      by (auto simp: nth_append less_Suc_eq intro: le_less_trans)
    from Cons.IH [OF this, of x "i + 1"] Cons.prems True show ?thesis by simp
  next
    case False
    have "first_max (pre @ [x]) largest"
      using Cons.prems False unfolding first_max_def
      by (auto simp: nth_append less_Suc_eq)
    from Cons.IH [OF this, of lv "i + 1"] Cons.prems False show ?thesis
      by (simp add: first_max_def nth_append)
  qed
qed

lemma max_element_first_max: "xs \<noteq> [] \<Longrightarrow> first_max xs (max_element xs)"
proof -
  assume "xs \<noteq> []"
  then obtain x xs' where xs: "xs = x # xs'" by (cases xs) auto
  have "first_max [x] 0" by (simp add: first_max_def)
  from max_element_loop_first_max [OF this, of x 1 xs'] xs show ?thesis
    by (simp add: max_element_def)
qed


lemma RandomForest_predict_alt_smallest_most_voted:
  assumes pr: "map (\<lambda>t. predict t feature) (rf_trees rf) = map Inr ps"
    and ne: "ps \<noteq> []"
    and nt: "rf_num_trees rf = int (length (rf_trees rf))"
    and rng: "\<forall>p\<in>set ps. 0 \<le> p \<and> p < rf_num_trees rf"
  shows "\<exists>r. RandomForest_predict_alt rf feature = Inr r \<and> smallest_most_voted ps r"
proof -
  let ?n = "nat (rf_num_trees rf)"
  have c0: "counted (replicate ?n 0) []" by (simp add: counted_def)
  from rng have "\<forall>p\<in>set ps. 0 \<le> p \<and> p < int (length (replicate ?n (0::int)))" by auto
  with votes_loop_result [OF pr c0] obtain v where
    v: "votes_loop (rf_trees rf) feature (replicate ?n 0) = Inr v"
    and len: "length v = ?n" and cnt: "counted v ps"
    by auto
  from ne obtain p0 where p0: "p0 \<in> set ps" by (cases ps) auto
  with rng len have "v \<noteq> []" by auto
  from max_element_first_max [OF this] have fm: "first_max v (max_element v)" .
  let ?r = "max_element v"
  from fm have rl: "?r < length v" and mx: "\<And>j. j < length v \<Longrightarrow> v ! j \<le> v ! ?r"
    and fst: "\<And>j. j < ?r \<Longrightarrow> v ! j < v ! ?r"
    by (auto simp: first_max_def)
  have val: "v ! nat l = int (count_list ps l)" "nat l < length v" if "l \<in> set ps" for l
  proof -
    from that rng len show "nat l < length v" by auto
    with cnt that rng show "v ! nat l = int (count_list ps l)"
      by (auto simp: counted_def)
  qed
  have vr: "v ! ?r = int (count_list ps (int ?r))" using cnt rl by (simp add: counted_def)
  have "0 < count_list ps p0" using p0 count_list_0_iff [of ps p0] by simp
  with val [OF p0] mx [of "nat p0"] vr have "0 < count_list ps (int ?r)" by simp
  then have rin: "int ?r \<in> set ps" using count_list_0_iff [of ps "int ?r"] by simp
  have "count_list ps l \<le> count_list ps (int ?r) \<and>
        (count_list ps l = count_list ps (int ?r) \<longrightarrow> int ?r \<le> l)" if l: "l \<in> set ps" for l
  proof
    from val [OF l] mx [of "nat l"] vr show "count_list ps l \<le> count_list ps (int ?r)" by simp
    show "count_list ps l = count_list ps (int ?r) \<longrightarrow> int ?r \<le> l"
    proof
      assume "count_list ps l = count_list ps (int ?r)"
      with val [OF l] vr have "v ! nat l = v ! ?r" by simp
      with fst [of "nat l"] have "\<not> nat l < ?r" by auto
      with l rng show "int ?r \<le> l" by auto
    qed
  qed
  with rin have "smallest_most_voted ps (int ?r)" by (simp add: smallest_most_voted_def)
  with v show ?thesis by (simp add: RandomForest_predict_alt_def)
qed

lemma RandomForest_predict_alt_out_of_range:
  assumes pr: "map (\<lambda>t. predict t feature) (rf_trees rf) = map Inr ps"
  shows "RandomForest_predict_alt rf feature = Inl VoteIndexOutOfRange \<longleftrightarrow>
         (\<exists>p\<in>set ps. p < 0 \<or> rf_num_trees rf \<le> p)"
proof -
  let ?n = "nat (rf_num_trees rf)"
  have c0: "counted (replicate ?n 0) []" by (simp add: counted_def)
  have eq: "(\<forall>p\<in>set ps. 0 \<le> p \<and> p < int (length (replicate ?n (0::int)))) \<longleftrightarrow>
            \<not> (\<exists>p\<in>set ps. p < 0 \<or> rf_num_trees rf \<le> p)"
    by auto
  show ?thesis
  proof (cases "\<exists>p\<in>set ps. p < 0 \<or> rf_num_trees rf \<le> p")
    case True
    with eq votes_loop_result [OF pr c0]
    have "votes_loop (rf_trees rf) feature (replicate ?n 0) = Inl VoteIndexOutOfRange"
      by (simp split: if_splits)
    with True show ?thesis by (simp add: RandomForest_predict_alt_def)
  next
    case False
    with eq votes_loop_result [OF pr c0]
    obtain v where "votes_loop (rf_trees rf) feature (replicate ?n 0) = Inr v"
      by (auto split: if_splits)
    with False show ?thesis by (simp add: RandomForest_predict_alt_def)
  qed
qed

text \<open>
  A forest without trees: the map-based \<open>predict\<close> returns the initial \<open>majorityVote = -1\<close>,
  the vector-based one the end position \<open>0\<close> of the empty vote vector.
\<close>

lemma empty_forest_predictions:
  "RandomForest_predict \<lparr>rf_num_trees = 0, rf_trees = []\<rparr> feature = Inr (- 1) \<and>
   RandomForest_predict_alt \<lparr>rf_num_trees = 0, rf_trees = []\<rparr> feature = Inr 0"
  by (simp add: RandomForest_predict_def RandomForest_predict_alt_def max_element_def)



text \<open>
  C9, as stated, fails: a forest constructed with \<open>num_trees = 0\<close> has no predictions, so
  they are the same in both versions and all of them lie in \<open>[0, num_trees)\<close>; the map-based
  \<open>predict\<close> returns its initial \<open>majorityVote = -1\<close> and the vector-based one the position
  \<open>0\<close> that \<open>max_element\<close> gives for an empty vector.
\<close>

theorem predict_versions_agree_counterexample:
  "RandomForest_predict \<lparr>rf_num_trees = 0, rf_trees = []\<rparr> [] = Inr (- 1) \<and>
   RandomForest_predict_alt \<lparr>rf_num_trees = 0, rf_trees = []\<rparr> [] = Inr 0 \<and>
   RandomForest_predict \<lparr>rf_num_trees = 0, rf_trees = []\<rparr> [] \<noteq>
     RandomForest_predict_alt \<lparr>rf_num_trees = 0, rf_trees = []\<rparr> []"
  by (simp add: RandomForest_predict_def RandomForest_predict_alt_def max_element_def)

text \<open>
  C9, amended. In a forest with at least one tree, on the same per-tree predictions \<open>ps\<close>,
  all of them in \<open>[0, num_trees)\<close>, the vector-based \<open>predict\<close> and the map-based \<open>predict\<close>
  return the same label, the smallest label with the greatest number of votes.
\<close>

theorem predict_versions_agree:
  assumes "map (\<lambda>t. predict t feature) (rf_trees rf) = map Inr ps"
    and "ps \<noteq> []"
    and "rf_num_trees rf = int (length (rf_trees rf))"
    and "\<forall>p\<in>set ps. 0 \<le> p \<and> p < rf_num_trees rf"
  shows "\<exists>r. RandomForest_predict_alt rf feature = Inr r \<and>
             RandomForest_predict rf feature = Inr r \<and> smallest_most_voted ps r"
proof -
  from RandomForest_predict_alt_smallest_most_voted [OF assms] obtain r where
    r: "RandomForest_predict_alt rf feature = Inr r" "smallest_most_voted ps r" by blast
  from RandomForest_predict_smallest_most_voted [OF assms(1,2)] obtain r' where
    r': "RandomForest_predict rf feature = Inr r'" "smallest_most_voted ps r'" by blast
  from smallest_most_voted_unique [OF r(2) r'(2)] r r' show ?thesis by simp
qed

theorem predict_versions_agree_witness:
  "map (\<lambda>t. predict t [])
     [Node True 1 0 0 0 None None, Node True 0 0 0 0 None None, Node True 1 0 0 0 None None] =
     map Inr [1, 0, 1] \<and> [1, 0, 1::int] \<noteq> [] \<and>
   (3::int) = int (length [Node True 1 0 0 0 None None, Node True 0 0 0 0 None None,
                           Node True 1 0 0 0 None None]) \<and>
   list_all (\<lambda>p. 0 \<le> p \<and> p < 3) [1, 0, 1::int] \<and>
   (\<exists>r. RandomForest_predict_alt
          \<lparr>rf_num_trees = 3,
           rf_trees = [Node True 1 0 0 0 None None, Node True 0 0 0 0 None None,
                       Node True 1 0 0 0 None None]\<rparr> [] = Inr r \<and>
        RandomForest_predict
          \<lparr>rf_num_trees = 3,
           rf_trees = [Node True 1 0 0 0 None None, Node True 0 0 0 0 None None,
                       Node True 1 0 0 0 None None]\<rparr> [] = Inr r \<and>
        smallest_most_voted [1, 0, 1] r)"
  using predict_versions_agree [of "[]"
      "\<lparr>rf_num_trees = 3,
        rf_trees = [Node True 1 0 0 0 None None, Node True 0 0 0 0 None None,
                    Node True 1 0 0 0 None None]\<rparr>" "[1, 0, 1]"]
  by simp

text \<open>
  C10. When every tree returns a prediction, the vector-based \<open>predict\<close> indexes its vote
  vector out of range exactly when some predicted label is outside \<open>[0, num_trees)\<close>; a
  forest of one tree that predicts the label \<open>1\<close> does so.
\<close>

theorem predict_alt_vote_index:
  "(map (\<lambda>t. predict t feature) (rf_trees rf) = map Inr ps \<longrightarrow>
      (RandomForest_predict_alt rf feature = Inl VoteIndexOutOfRange \<longleftrightarrow>
       (\<exists>p\<in>set ps. p < 0 \<or> rf_num_trees rf \<le> p))) \<and>
   RandomForest_predict_alt
     \<lparr>rf_num_trees = 1, rf_trees = [Node True 1 0 0 0 None None]\<rparr> feature =
     Inl VoteIndexOutOfRange"
proof (intro conjI impI)
  assume "map (\<lambda>t. predict t feature) (rf_trees rf) = map Inr ps"
  then show "RandomForest_predict_alt rf feature = Inl VoteIndexOutOfRange \<longleftrightarrow>
       (\<exists>p\<in>set ps. p < 0 \<or> rf_num_trees rf \<le> p)"
    by (rule RandomForest_predict_alt_out_of_range)
qed (simp add: RandomForest_predict_alt_def)

theorem predict_alt_vote_index_witness:
  "map (\<lambda>t. predict t [])
     [Node True 0 0 0 0 None None, Node True 2 0 0 0 None None] = map Inr [0, 2] \<and>
   RandomForest_predict_alt
     \<lparr>rf_num_trees = 2,
      rf_trees = [Node True 0 0 0 0 None None, Node True 2 0 0 0 None None]\<rparr> [] =
     Inl VoteIndexOutOfRange \<and>
   (\<exists>p\<in>set [0, 2::int]. p < 0 \<or> 2 \<le> p)"
  using predict_alt_vote_index [of "[]"
      "\<lparr>rf_num_trees = 2,
        rf_trees = [Node True 0 0 0 0 None None, Node True 2 0 0 0 None None]\<rparr>" "[0, 2]"]
  by simp


section \<open>Cross-validation folds\<close>

lemma fold_bounds:
  assumes "i < k"
  shows "fold_start n k i \<le> fold_end n k i \<and> fold_end n k i \<le> n"
proof -
  have "(i + 1) * (n div k) \<le> k * (n div k)" using assms by (intro mult_right_mono) auto
  also have "\<dots> \<le> n" by simp
  finally have a: "(i + 1) * (n div k) \<le> n" .
  have b: "i * (n div k) \<le> (i + 1) * (n div k)" by simp
  from a b show ?thesis by (auto simp: fold_start_def fold_end_def)
qed

lemma concat_folds_prefix:
  "m < k \<Longrightarrow> concat (map (test_positions n k) [0..<m]) = [0..<m * (n div k)]"
proof (induction m)
  case 0
  show ?case by simp
next
  case (Suc m)
  then have ih: "concat (map (test_positions n k) [0..<m]) = [0..<m * (n div k)]" by simp
  from Suc.prems have "test_positions n k m = [m * (n div k)..<m * (n div k) + n div k]"
    by (simp add: test_positions_def fold_start_def fold_end_def add.commute)
  with ih have "concat (map (test_positions n k) [0..<Suc m]) =
      [0..<m * (n div k)] @ [m * (n div k)..<m * (n div k) + n div k]" by simp
  also have "\<dots> = [0..<m * (n div k) + n div k]" by (simp add: upt_add_eq_append [symmetric])
  finally show ?case by (simp add: add.commute)
qed

lemma concat_folds:
  assumes "1 \<le> k"
  shows "concat (map (test_positions n k) [0..<k]) = [0..<n]"
proof -
  from assms obtain m where k: "k = Suc m" by (cases k) auto
  have "m < k" using k by simp
  from concat_folds_prefix [OF this] have p: "concat (map (test_positions n k) [0..<m]) = [0..<m * (n div k)]" .
  have "fold_start n k m \<le> fold_end n k m" using fold_bounds [of m k n] k by simp
  then have le: "m * (n div k) \<le> n" using k by (simp add: fold_start_def fold_end_def)
  have "test_positions n k m = [m * (n div k)..<n]"
    using k by (simp add: test_positions_def fold_start_def fold_end_def)
  with p k have "concat (map (test_positions n k) [0..<k]) = [0..<m * (n div k)] @ [m * (n div k)..<n]"
    by simp
  also have "\<dots> = [0..<n]" using le upt_add_eq_append [of 0 "m * (n div k)" "n - m * (n div k)"]
    by simp
  finally show ?thesis .
qed

lemma filter_upt_inside:
  "s \<le> e \<Longrightarrow> e \<le> n \<Longrightarrow> filter (\<lambda>p. s \<le> p \<and> p < e) [0..<n] = [s..<e]"
proof -
  assume a: "s \<le> e" "e \<le> n"
  have "[0..<n] = [0..<s] @ [s..<e] @ [e..<n]"
    using a upt_add_eq_append [of 0 s "n - s"] upt_add_eq_append [of s e "n - e"] by simp
  then have "filter (\<lambda>p. s \<le> p \<and> p < e) [0..<n] =
     filter (\<lambda>p. s \<le> p \<and> p < e) [0..<s] @ filter (\<lambda>p. s \<le> p \<and> p < e) [s..<e] @
     filter (\<lambda>p. s \<le> p \<and> p < e) [e..<n]" by simp
  also have "filter (\<lambda>p. s \<le> p \<and> p < e) [0..<s] = []" by (simp add: filter_empty_conv)
  also have "filter (\<lambda>p. s \<le> p \<and> p < e) [e..<n] = []" by (simp add: filter_empty_conv)
  also have "filter (\<lambda>p. s \<le> p \<and> p < e) [s..<e] = [s..<e]" by (simp add: filter_id_conv)
  finally show ?thesis by simp
qed

lemma filter_upt_outside:
  "s \<le> e \<Longrightarrow> e \<le> n \<Longrightarrow> filter (\<lambda>p. \<not> (s \<le> p \<and> p < e)) [0..<n] = [0..<s] @ [e..<n]"
proof -
  assume a: "s \<le> e" "e \<le> n"
  have "[0..<n] = [0..<s] @ [s..<e] @ [e..<n]"
    using a upt_add_eq_append [of 0 s "n - s"] upt_add_eq_append [of s e "n - e"] by simp
  then have "filter (\<lambda>p. \<not> (s \<le> p \<and> p < e)) [0..<n] =
     filter (\<lambda>p. \<not> (s \<le> p \<and> p < e)) [0..<s] @ filter (\<lambda>p. \<not> (s \<le> p \<and> p < e)) [s..<e] @
     filter (\<lambda>p. \<not> (s \<le> p \<and> p < e)) [e..<n]" by simp
  also have "filter (\<lambda>p. \<not> (s \<le> p \<and> p < e)) [0..<s] = [0..<s]" by (simp add: filter_id_conv)
  also have "filter (\<lambda>p. \<not> (s \<le> p \<and> p < e)) [e..<n] = [e..<n]" by (simp add: filter_id_conv)
  also have "filter (\<lambda>p. \<not> (s \<le> p \<and> p < e)) [s..<e] = []" by (simp add: filter_empty_conv)
  finally show ?thesis by simp
qed

lemma split_loop_filter:
  assumes ok: "\<forall>p<n. data_at data indices (int p) = Inr (data ! nat (indices ! p))"
  shows "j \<le> n \<Longrightarrow>
   split_loop data indices start end (int n) (int j) trainSet testSet =
     Inr (trainSet @ rows_at data indices (filter (\<lambda>p. \<not> (start \<le> int p \<and> int p < end)) [j..<n]),
          testSet @ rows_at data indices (filter (\<lambda>p. start \<le> int p \<and> int p < end) [j..<n]))"
proof (induction "n - j" arbitrary: j trainSet testSet)
  case 0
  then have "j = n" by simp
  then show ?case by (simp add: split_loop.simps rows_at_def)
next
  case (Suc d)
  then have jn: "j < n" by simp
  then have up: "[j..<n] = j # [Suc j..<n]" by (simp add: upt_conv_Cons)
  from ok jn have da: "data_at data indices (int j) = Inr (data ! nat (indices ! j))" by simp
  have d: "d = n - Suc j" using Suc.hyps(2) by simp
  have sj: "int j + 1 = int (Suc j)" by simp
  show ?case
  proof (cases "start \<le> int j \<and> int j < end")
    case True
    from Suc.hyps(1) [OF d, of trainSet "testSet @ [data ! nat (indices ! j)]"] jn True da
    show ?thesis
      by (subst split_loop.simps) (simp add: up rows_at_def sj del: of_nat_Suc)
  next
    case False
    from Suc.hyps(1) [OF d, of "trainSet @ [data ! nat (indices ! j)]" testSet] jn False da
    show ?thesis
      by (subst split_loop.simps) (auto simp add: up rows_at_def sj simp del: of_nat_Suc)
  qed
qed


lemma shuffled_data_at:
  assumes "mset indices = mset (map int [0..<length data])" and "p < length data"
  shows "data_at data indices (int p) = Inr (data ! nat (indices ! p))"
proof -
  from assms(1) have len: "length indices = length data"
    using mset_eq_length by fastforce
  from assms(1) have "set indices = set (map int [0..<length data])" by (rule mset_eq_setD)
  moreover from len assms(2) have "indices ! p \<in> set indices" by simp
  ultimately have "0 \<le> indices ! p \<and> indices ! p < int (length data)" by auto
  with len assms(2) show ?thesis by (simp add: data_at_def)
qed

lemma split_loop_fold:
  assumes sh: "mset indices = mset (map int [0..<length data])" and ik: "i < k"
  shows "split_loop data indices (int (fold_start (length data) k i))
           (int (fold_end (length data) k i)) (int (length data)) 0 [] [] =
         Inr (rows_at data indices (train_positions (length data) k i),
              rows_at data indices (test_positions (length data) k i))"
proof -
  let ?n = "length data"
  let ?s = "fold_start ?n k i" and ?e = "fold_end ?n k i"
  have ok: "\<forall>p<?n. data_at data indices (int p) = Inr (data ! nat (indices ! p))"
    using shuffled_data_at [OF sh] by simp
  from fold_bounds [OF ik, of ?n] have b: "?s \<le> ?e" "?e \<le> ?n" by auto
  have "split_loop data indices (int ?s) (int ?e) (int ?n) (int 0) [] [] =
     Inr ([] @ rows_at data indices (filter (\<lambda>p. \<not> (int ?s \<le> int p \<and> int p < int ?e)) [0..<?n]),
          [] @ rows_at data indices (filter (\<lambda>p. int ?s \<le> int p \<and> int p < int ?e) [0..<?n]))"
    by (rule split_loop_filter [OF ok]) simp
  moreover have "filter (\<lambda>p. int ?s \<le> int p \<and> int p < int ?e) [0..<?n] = [?s..<?e]"
    using filter_upt_inside [OF b] by simp
  moreover have "filter (\<lambda>p. \<not> (int ?s \<le> int p \<and> int p < int ?e)) [0..<?n] = [0..<?s] @ [?e..<?n]"
    using filter_upt_outside [OF b] by simp
  ultimately show ?thesis by (simp add: train_positions_def test_positions_def)
qed

lemma fold_loop_scores:
  assumes sh: "mset indices = mset (map int [0..<length data])"
    and sc: "\<forall>i<k. fold_score train_fn num_trees data indices k i = Inr (sc i)"
  shows "i \<le> k \<Longrightarrow>
    fold_loop train_fn data indices (int (length data)) (int k) num_trees
      (int (length data div k)) (int i) scores =
    Inr (scores @ map sc [i..<k])"
proof (induction "k - i" arbitrary: i scores)
  case 0
  then have "i = k" by simp
  then show ?case by (simp add: fold_loop.simps)
next
  case (Suc d)
  then have ik: "i < k" by simp
  then have up: "[i..<k] = i # [Suc i..<k]" by (simp add: upt_conv_Cons)
  have d: "d = k - Suc i" using Suc.hyps(2) by simp
  let ?n = "length data"
  have st: "int i * int (?n div k) = int (fold_start ?n k i)" by (simp add: fold_start_def)
  have en: "(if int i = int k - 1 then int ?n else (int i + 1) * int (?n div k)) =
      int (fold_end ?n k i)"
  proof (cases "i + 1 = k")
    case True
    then have "int i = int k - 1" by simp
    with True show ?thesis by (simp add: fold_end_def)
  next
    case False
    then have "int i \<noteq> int k - 1" by linarith
    moreover have "(int i + 1) * int (?n div k) = int ((i + 1) * (?n div k))"
      by (simp add: algebra_simps)
    ultimately show ?thesis using False by (simp only: fold_end_def if_False)
  qed
  from sc ik have fs: "fold_score train_fn num_trees data indices k i = Inr (sc i)" by simp
  then obtain model where
    tr: "train_fn (int i) num_trees (rows_at data indices (train_positions ?n k i)) = Inr model"
    and ev: "evaluate model (rows_at data indices (test_positions ?n k i)) = Inr (sc i)"
    by (auto simp: fold_score_def split: sum.splits)
  have sj: "int i + 1 = int (Suc i)" by simp
  have en': "(if int i = int k - 1 then int ?n else int (Suc i) * int (?n div k)) =
      int (fold_end ?n k i)"
    using en by (simp only: sj)
  have rec: "fold_loop train_fn data indices (int ?n) (int k) num_trees (int (?n div k))
      (int (Suc i)) (scores @ [sc i]) = Inr ((scores @ [sc i]) @ map sc [Suc i..<k])"
    using Suc.hyps(1) [OF d] ik by simp
  have "fold_loop train_fn data indices (int ?n) (int k) num_trees (int (?n div k)) (int i) scores =
     fold_loop train_fn data indices (int ?n) (int k) num_trees (int (?n div k))
      (int (Suc i)) (scores @ [sc i])"
    using ik
    by (subst fold_loop.simps)
       (simp only: st en' split_loop_fold [OF sh ik] tr ev sj Let_def of_nat_less_iff if_True
          sum.case prod.case)
  with rec show ?case by (simp add: up)
qed

lemma int_div_nat: "0 < k \<Longrightarrow> int_div (int n) (int k) = int (n div k)"
  by (cases "n = 0") (simp_all add: int_div_def zdiv_int)

lemma foldl_fadd_Num: "foldl fadd (Num a) (map Num xs) = Num (a + sum_list xs)"
  by (induction xs arbitrary: a) (simp_all add: add.assoc)

lemma mean_of_scores:
  "xs \<noteq> [] \<Longrightarrow>
   fdiv (foldl fadd (Num 0) (map Num xs)) (Num (real (length (map Num xs)))) =
   Num (sum_list xs / real (length xs))"
  by (simp add: foldl_fadd_Num)

lemma perform_mean:
  assumes k: "1 \<le> k"
    and sh: "mset (shuffle (map int [0..<length data])) = mset (map int [0..<length data])"
    and sc: "\<forall>i<k. fold_score train_fn num_trees data
               (shuffle (map int [0..<length data])) k i = Inr (Num (score i))"
  shows "perform train_fn shuffle data (int k) num_trees =
         Inr (Num (sum_list (map score [0..<k]) / real k))"
proof -
  let ?ix = "shuffle (map int [0..<length data])"
  from sc have sc': "\<forall>i<k. fold_score train_fn num_trees data ?ix k i =
      Inr ((Num \<circ> score) i)" by simp
  have "fold_loop train_fn data ?ix (int (length data)) (int k) num_trees
      (int (length data div k)) (int 0) [] = Inr ([] @ map (Num \<circ> score) [0..<k])"
    by (rule fold_loop_scores [OF sh sc']) simp
  then have fl: "fold_loop train_fn data ?ix (int (length data)) (int k) num_trees
      (int_div (int (length data)) (int k)) 0 [] = Inr (map Num (map score [0..<k]))"
    using k by (simp add: int_div_nat)
  have ne: "map score [0..<k] \<noteq> []" using k by simp
  from k have k0: "int k \<noteq> 0" by simp
  show ?thesis
    unfolding perform_def Let_def
    using k0 fl mean_of_scores [OF ne] by simp
qed

lemma kFoldCrossValidation_perform:
  "kFoldCrossValidation new_Node indeterminate iteration_order split_shuffle draws shuffle rf
     data k =
   perform (model_train new_Node indeterminate iteration_order split_shuffle draws) shuffle
     data k (rf_num_trees rf)"
  by (simp add: perform_def kFoldCrossValidation_def)

lemma test_train_positions:
  assumes "i < k"
  shows "mset (test_positions n k i) + mset (train_positions n k i) = mset [0..<n]"
proof -
  from fold_bounds [OF assms, of n] have b: "fold_start n k i \<le> fold_end n k i" "fold_end n k i \<le> n"
    by auto
  have "[0..<n] = [0..<fold_start n k i] @ [fold_start n k i..<fold_end n k i] @ [fold_end n k i..<n]"
    using b upt_add_eq_append [of 0 "fold_start n k i" "n - fold_start n k i"]
      upt_add_eq_append [of "fold_start n k i" "fold_end n k i" "n - fold_end n k i"] by simp
  then have "mset [0..<n] = mset ([0..<fold_start n k i] @ [fold_start n k i..<fold_end n k i] @ [fold_end n k i..<n])"
    by simp
  then show ?thesis by (simp add: test_positions_def train_positions_def)
qed

lemma test_fold_size:
  assumes "i < k"
  shows "n div k \<le> length (test_positions n k i)"
proof (cases "i + 1 = k")
  case True
  have "(i + 1) * (n div k) \<le> n" using True by simp
  then have "i * (n div k) + n div k \<le> n" by (simp add: algebra_simps)
  with True show ?thesis by (simp add: test_positions_def fold_start_def fold_end_def)
next
  case False
  then show ?thesis by (simp add: test_positions_def fold_start_def fold_end_def)
qed

lemma shuffled_rows_once:
  assumes k: "1 \<le> k"
    and sh: "mset indices = mset (map int [0..<n])"
  shows "mset (concat (map (\<lambda>i. map (\<lambda>j. indices ! j) (test_positions n k i)) [0..<k])) =
         mset (map int [0..<n])"
proof -
  from sh have len: "length indices = n" using mset_eq_length by fastforce
  have "concat (map (\<lambda>i. map (\<lambda>j. indices ! j) (test_positions n k i)) [0..<k]) =
        map (\<lambda>j. indices ! j) (concat (map (test_positions n k) [0..<k]))"
    by (simp add: map_concat comp_def)
  also have "\<dots> = map (\<lambda>j. indices ! j) [0..<n]" using concat_folds [OF k] by simp
  also have "\<dots> = indices" using len map_nth [of indices] by simp
  finally show ?thesis using sh by simp
qed

text \<open>
  The runs in which training and evaluation return a score. For \<open>1 \<le> k \<le> n\<close> and a
  shuffle that permutes the indices, the loop of run \<open>i\<close> builds the training and the test
  set that the specification describes: the test set is fold \<open>i\<close>, a contiguous block of
  \<open>n div k\<close> positions (the last fold runs to \<open>n\<close>), and the training set is the rest. The
  folds put one after the other are the positions \<open>0, ..., n - 1\<close>, so every row index is in
  the test set of one run and in the training set of the others. When run \<open>i\<close> trains and
  evaluates to the score \<open>score i\<close>, the result is the sum of the \<open>k\<close> scores divided by
  \<open>k\<close>.
\<close>

lemma perform_folds:
  assumes "1 \<le> k" and "k \<le> length data"
    and "mset (shuffle (map int [0..<length data])) = mset (map int [0..<length data])"
    and "\<forall>i<k. fold_score train_fn num_trees data
               (shuffle (map int [0..<length data])) k i = Inr (Num (score i))"
  shows "perform train_fn shuffle data (int k) num_trees =
           Inr (Num (sum_list (map score [0..<k]) / real k)) \<and>
         (\<forall>i<k. split_loop data (shuffle (map int [0..<length data]))
                   (int i * int_div (int (length data)) (int k))
                   (if int i = int k - 1 then int (length data)
                    else (int i + 1) * int_div (int (length data)) (int k))
                   (int (length data)) 0 [] [] =
                 Inr (rows_at data (shuffle (map int [0..<length data]))
                        (train_positions (length data) k i),
                      rows_at data (shuffle (map int [0..<length data]))
                        (test_positions (length data) k i))) \<and>
         concat (map (test_positions (length data) k) [0..<k]) = [0..<length data] \<and>
         (\<forall>i<k. 1 \<le> length (test_positions (length data) k i) \<and>
                 length data div k \<le> length (test_positions (length data) k i) \<and>
                 mset (test_positions (length data) k i) +
                   mset (train_positions (length data) k i) = mset [0..<length data]) \<and>
         mset (concat (map (\<lambda>i. map (\<lambda>j. shuffle (map int [0..<length data]) ! j)
                               (test_positions (length data) k i)) [0..<k])) =
           mset (map int [0..<length data])"
proof -
  let ?n = "length data"
  let ?ix = "shuffle (map int [0..<?n])"
  have m: "perform train_fn shuffle data (int k) num_trees =
           Inr (Num (sum_list (map score [0..<k]) / real k))"
    using assms(1,3,4) by (rule perform_mean)
  have sp: "split_loop data ?ix (int i * int_div (int ?n) (int k))
                   (if int i = int k - 1 then int ?n else (int i + 1) * int_div (int ?n) (int k))
                   (int ?n) 0 [] [] =
                 Inr (rows_at data ?ix (train_positions ?n k i),
                      rows_at data ?ix (test_positions ?n k i))" if ik: "i < k" for i
  proof -
    have st: "int i * int_div (int ?n) (int k) = int (fold_start ?n k i)"
      using assms(1) by (simp add: int_div_nat fold_start_def)
    have en: "(if int i = int k - 1 then int ?n else (int i + 1) * int_div (int ?n) (int k)) =
        int (fold_end ?n k i)"
    proof (cases "i + 1 = k")
      case True
      then have "int i = int k - 1" by simp
      with True show ?thesis by (simp add: fold_end_def)
    next
      case False
      then have "int i \<noteq> int k - 1" by linarith
      moreover have "(int i + 1) * int_div (int ?n) (int k) = int ((i + 1) * (?n div k))"
        using assms(1) by (simp add: int_div_nat algebra_simps)
      ultimately show ?thesis using False by (simp only: fold_end_def if_False)
    qed
    show ?thesis unfolding st en using assms(3) ik by (rule split_loop_fold)
  qed
  have d: "1 \<le> ?n div k" using assms(1,2) by (simp add: div_greater_zero_iff Suc_le_eq)
  have sz: "1 \<le> length (test_positions ?n k i) \<and> ?n div k \<le> length (test_positions ?n k i) \<and>
      mset (test_positions ?n k i) + mset (train_positions ?n k i) = mset [0..<?n]"
    if "i < k" for i
    using test_fold_size [OF that, of ?n] test_train_positions [OF that, of ?n] d by simp
  from m sp sz concat_folds [OF assms(1), of ?n] shuffled_rows_once [OF assms(1,3)]
  show ?thesis by simp
qed

section \<open>Cross-validation on a training set without rows\<close>

text \<open>
  A forest with a tree cannot be trained on an empty training set: the bootstrap sample
  is empty and \<open>DecisionTree::train\<close> reads \<open>data_vec[0]\<close> of it.
\<close>

lemma splitData_empty: "splitData shuffle [] test_size = Inr ([], [])"
  by (simp add: splitData_def static_cast_int_def copy_rows.simps)

lemma createBootstrapSample_empty: "createBootstrapSample draw [] = []"
  by (simp add: createBootstrapSample_def bootstrap_loop.simps)

lemma train_empty:
  "train new_Node indeterminate iteration_order root_node [] [] = Inl EmptyData"
  by (simp add: train_def)

lemma model_train_empty:
  assumes "1 \<le> num_trees"
  shows "model_train new_Node indeterminate iteration_order split_shuffle draws i num_trees [] =
         Inl EmptyData"
proof -
  have "train_trees new_Node indeterminate iteration_order (draws i) [] num_trees 0
          (replicate (nat num_trees) new_Node) = Inl EmptyData"
    using assms
    by (subst train_trees.simps) (simp add: createBootstrapSample_empty train_empty)
  with assms show ?thesis
    by (simp add: model_train_def RandomForest_new_def RandomForest_train_def splitData_empty)
qed

lemma model_train_alt_empty:
  assumes "1 \<le> num_trees"
  shows "model_train_alt new_Node indeterminate iteration_order draws i num_trees [] =
         Inl EmptyData"
proof -
  from assms obtain m where m: "nat num_trees = Suc m" by (cases "nat num_trees") auto
  have "train_trees_alt new_Node indeterminate iteration_order (draws i) [] 0
          (replicate (nat num_trees) new_Node) = Inl EmptyData"
    unfolding m by (simp add: createBootstrapSample_empty train_empty)
  with assms show ?thesis
    by (simp add: model_train_alt_def RandomForest_new_def RandomForest_train_alt_def)
qed

text \<open>
  With \<open>k = 1\<close> the only fold holds every row, so the training set of the only run is
  empty: whatever the data, no score is returned when the forest has a tree.
\<close>

lemma perform_one_fold:
  assumes sh: "mset (shuffle (map int [0..<length data])) = mset (map int [0..<length data])"
    and tr: "train_fn 0 num_trees [] = Inl e"
  shows "perform train_fn shuffle data 1 num_trees = Inl e"
proof -
  let ?n = "length data"
  let ?ix = "shuffle (map int [0..<?n])"
  have sp: "split_loop data ?ix (int (fold_start ?n 1 0)) (int (fold_end ?n 1 0)) (int ?n)
      0 [] [] =
      Inr (rows_at data ?ix (train_positions ?n 1 0), rows_at data ?ix (test_positions ?n 1 0))"
    using sh by (rule split_loop_fold) simp
  have tp: "train_positions ?n 1 0 = []"
    by (simp add: train_positions_def fold_start_def fold_end_def)
  from sp tp have sp': "split_loop data ?ix 0 (int ?n) (int ?n) 0 [] [] =
      Inr ([], rows_at data ?ix (test_positions ?n 1 0))"
    by (simp add: fold_start_def fold_end_def rows_at_def)
  have "fold_loop train_fn data ?ix (int ?n) 1 num_trees (int_div (int ?n) 1) 0 [] = Inl e"
    by (subst fold_loop.simps) (simp add: sp' tr)
  then show ?thesis by (simp add: perform_def)
qed

text \<open>
  C5. \<open>kFoldCrossValidation\<close> with \<open>k = 1\<close> on a dataset of two rows, called on a forest of
  one tree: the training set of the only run is empty and training it reads \<open>data_vec[0]\<close>
  of an empty sample, so no mean is returned. With \<open>k = 2\<close> each training set has one row,
  of which \<open>splitData\<close> keeps none for training, and the same happens. \<open>perform\<close> with
  \<open>k = 1\<close> does the same with either version of the forest.
\<close>

theorem kFoldCrossValidation_empty_training_set:
  "kFoldCrossValidation new_Node indeterminate iteration_order split_shuffle draws rev
     \<lparr>rf_num_trees = 1, rf_trees = [tree]\<rparr> [[1, 0], [2, 1]] 1 = Inl EmptyData \<and>
   kFoldCrossValidation new_Node indeterminate iteration_order (\<lambda>i. rev) draws rev
     \<lparr>rf_num_trees = 1, rf_trees = [tree]\<rparr> [[1, 0], [2, 1]] 2 = Inl EmptyData \<and>
   perform (model_train new_Node indeterminate iteration_order split_shuffle draws) rev
     [[1, 0], [2, 1]] 1 1 = Inl EmptyData \<and>
   perform (model_train_alt new_Node indeterminate iteration_order draws) rev
     [[1, 0], [2, 1]] 1 1 = Inl EmptyData"
proof -
  let ?data = "[[1, 0], [2, 1::real]]"
  have sh: "mset (rev (map int [0..<length ?data])) = mset (map int [0..<length ?data])"
    by simp
  have p1: "perform (model_train new_Node indeterminate iteration_order split_shuffle draws)
      rev ?data 1 1 = Inl EmptyData"
    using sh by (rule perform_one_fold) (simp add: model_train_empty)
  have p2: "perform (model_train_alt new_Node indeterminate iteration_order draws)
      rev ?data 1 1 = Inl EmptyData"
    using sh by (rule perform_one_fold) (simp add: model_train_alt_empty)
  have sd: "splitData rev [[1, 0]] (1 / 5) = Inr ([], [[1, 0]])"
    by (simp add: splitData_def static_cast_int_def copy_rows.simps data_at_def)
  have mt: "model_train new_Node indeterminate iteration_order (\<lambda>i. rev) draws 0 1 [[1, 0]] =
      Inl EmptyData"
    by (simp add: model_train_def RandomForest_new_def RandomForest_train_def sd
          train_trees.simps createBootstrapSample_empty train_empty)
  have sl: "split_loop ?data [1, 0] 0 1 2 0 [] [] = Inr ([[1, 0]], [[2, 1]])"
    by (simp add: split_loop.simps data_at_def)
  have "fold_loop (model_train new_Node indeterminate iteration_order (\<lambda>i. rev) draws)
      ?data [1, 0] 2 2 1 1 0 [] = Inl EmptyData"
    by (subst fold_loop.simps) (simp add: sl mt)
  then have k2: "kFoldCrossValidation new_Node indeterminate iteration_order (\<lambda>i. rev) draws rev
     \<lparr>rf_num_trees = 1, rf_trees = [tree]\<rparr> ?data 2 = Inl EmptyData"
    by (simp add: kFoldCrossValidation_def int_div_def upt_rec)
  from p1 p2 k2 show ?thesis by (simp add: kFoldCrossValidation_perform)
qed

end
